theory Spec2Isabelle
  imports Main "HOL-Library.Word" "HOL-Library.Code_Target_Nat"
begin

unbundle bit_operations_syntax

section \<open>Machine words and bit primitives\<close>

text \<open>
  The machine word is the 64-bit unsigned integer (\<open>W = 64\<close>, the width the repository's
  driver \<open>test_word\<close> instantiates). Arithmetic on \<open>word_t\<close> wraps modulo \<open>2 ^ 64\<close>.
\<close>

type_synonym word_t = "64 word"

definition W :: nat where
  "W = 64"

text \<open>
  Modelled from the spec: the header \<open>bits.h\<close> (\<open>lowbits\<close>, \<open>popcount\<close>) is not among the
  source files. The spec calls both standard: \<open>lowbits v n\<close> keeps the \<open>n\<close> low bits of
  \<open>v\<close>, \<open>popcount\<close> counts the set bits of a word.
\<close>

definition lowbits :: "word_t \<Rightarrow> nat \<Rightarrow> word_t" where
  "lowbits v n = take_bit n v"

definition popcount :: "word_t \<Rightarrow> nat" where
  "popcount v = length (filter (bit v) [0..<64])"

section \<open>The bit view\<close>

text \<open>
  Modelled from the spec: the header \<open>bitview.h\<close> is not among the source files. The spec
  describes the bit view as a flat stream of \<open>L\<close> bits over a sequence of words, and gives
  the contract of its range operations: \<open>get(begin, end)\<close> returns the bits in
  \<open>[begin, end)\<close> right-justified and zero-extended, \<open>set(begin, end, value)\<close> writes the
  low \<open>end - begin\<close> bits of \<open>value\<close> into \<open>[begin, end)\<close> and preserves the surrounding
  bits. The view is modelled by its stream of bits, position \<open>i\<close> of the list being bit
  \<open>i\<close> of the view; the contract leaves a range that runs past the length of the view
  open, and the model leaves the view unchanged there.
\<close>

type_synonym bitview = "bool list"

definition bv_get :: "bitview \<Rightarrow> nat \<Rightarrow> nat \<Rightarrow> word_t" where
  "bv_get bs b e = horner_sum of_bool 2 (take (e - b) (drop b bs))"

definition bv_set :: "bitview \<Rightarrow> nat \<Rightarrow> nat \<Rightarrow> word_t \<Rightarrow> bitview" where
  "bv_set bs b e v =
     (if b \<le> e \<and> e \<le> length bs
      then take b bs @ map (bit v) [0..<e - b] @ drop e bs
      else bs)"

section \<open>The packed view (packed_view.h)\<close>

record packed_view =
  pv_bits :: bitview
  pv_width :: nat
  pv_field_mask :: word_t

text \<open>\<open>compute_field_mask\<close>: the loop runs \<open>W / width\<close> times over the mask.\<close>

fun field_mask_loop :: "nat \<Rightarrow> nat \<Rightarrow> word_t \<Rightarrow> word_t" where
  "field_mask_loop 0 width m = m"
| "field_mask_loop (Suc n) width m = field_mask_loop n width (push_bit width m OR 1)"

definition compute_field_mask :: "nat \<Rightarrow> word_t" where
  "compute_field_mask width = field_mask_loop (W div width) width 0"

text \<open>The constructor \<open>packed_view(width, size)\<close>: \<open>width * size\<close> bits, all zero.\<close>

definition new_packed_view :: "nat \<Rightarrow> nat \<Rightarrow> packed_view" where
  "new_packed_view width n =
     \<lparr>pv_bits = replicate (width * n) False, pv_width = width,
      pv_field_mask = compute_field_mask width\<rparr>"

definition pv_size :: "packed_view \<Rightarrow> nat" where
  "pv_size v = length (pv_bits v) div pv_width v"

definition field_mask :: "packed_view \<Rightarrow> word_t" where
  "field_mask v = pv_field_mask v"

definition flag_mask :: "packed_view \<Rightarrow> word_t" where
  "flag_mask v = push_bit (pv_width v - 1) (pv_field_mask v)"

definition pv_get :: "packed_view \<Rightarrow> nat \<Rightarrow> nat \<Rightarrow> word_t" where
  "pv_get v b e = bv_get (pv_bits v) (b * pv_width v) (e * pv_width v)"

definition pv_set :: "packed_view \<Rightarrow> nat \<Rightarrow> nat \<Rightarrow> word_t \<Rightarrow> packed_view" where
  "pv_set v b e x = v\<lparr>pv_bits := bv_set (pv_bits v) (b * pv_width v) (e * pv_width v) x\<rparr>"

text \<open>
  The loop of \<open>repeat\<close>, from its state \<open>(len, p)\<close>. Its step is \<open>rem\<close> once fewer than
  \<open>bits_per_word\<close> bits are left; a step of zero bits before \<open>p\<close> reaches the end would
  never leave the loop, so the loop is a partial function and \<open>None\<close> stands for a run
  that does not return.
\<close>

partial_function (option) repeat_loop ::
  "nat \<Rightarrow> nat \<Rightarrow> nat \<Rightarrow> word_t \<Rightarrow> nat \<Rightarrow> nat \<Rightarrow> bitview \<Rightarrow> bitview option" where
  "repeat_loop bits_per_word rem endbit val len p bs =
     (if p < endbit
      then (let step = (if len < bits_per_word then rem else bits_per_word)
            in repeat_loop bits_per_word rem endbit val (len - step) (p + step)
                 (bv_set bs p (p + step) val))
      else Some bs)"

declare repeat_loop.simps [code]

definition pv_repeat :: "packed_view \<Rightarrow> nat \<Rightarrow> nat \<Rightarrow> word_t \<Rightarrow> packed_view option" where
  "pv_repeat v b e pattern =
     (let fields_per_word = W div pv_width v;
          bits_per_word = fields_per_word * pv_width v;
          len = (e - b) * pv_width v;
          rem = len mod bits_per_word;
          val = field_mask v * lowbits pattern (pv_width v)
      in map_option (\<lambda>bs. v\<lparr>pv_bits := bs\<rparr>)
           (repeat_loop bits_per_word rem (e * pv_width v) val len (b * pv_width v) (pv_bits v)))"

text \<open>
  The loop of \<open>find\<close>, from its state \<open>(len, p, result)\<close>, with the same step rule as
  \<open>repeat\<close>. The subtraction from \<open>result\<close> is the machine subtraction of \<open>size_t\<close>.
\<close>

partial_function (option) find_loop ::
  "packed_view \<Rightarrow> nat \<Rightarrow> nat \<Rightarrow> nat \<Rightarrow> word_t \<Rightarrow> nat \<Rightarrow> nat \<Rightarrow> nat \<Rightarrow> nat option" where
  "find_loop v fields_per_word rem e val len p result =
     (if p < e
      then (let step = (if len < fields_per_word then rem else fields_per_word);
                word = pv_get v p (p + step) OR flag_mask v;
                cnt = popcount (lowbits (flag_mask v AND (word - val)) (step * pv_width v))
            in find_loop v fields_per_word rem e val (len - step) (p + step)
                 ((result + 2 ^ 64 - cnt) mod 2 ^ 64))
      else Some result)"

declare find_loop.simps [code]

definition pv_find :: "packed_view \<Rightarrow> nat \<Rightarrow> nat \<Rightarrow> word_t \<Rightarrow> nat option" where
  "pv_find v b e x =
     (let fields_per_word = W div pv_width v;
          len = e - b;
          rem = len mod fields_per_word;
          val = field_mask v * lowbits x (pv_width v - 1)
      in find_loop v fields_per_word rem e val len b len)"

section \<open>The dynamic bit vector (bitvector.h)\<close>

subsection \<open>Failures\<close>

text \<open>
  The source has three ways not to return a result. \<open>access\<close> throws \<open>std::out_of_range\<close>;
  an \<open>assert\<close> that fails aborts the run (the model is the build with assertions on); an
  index past the end of a \<open>std::vector\<close> and a division by zero are undefined behaviour.
  Each is a value of \<open>error\<close>, and a function that can fail returns \<open>error + 'a\<close>.
\<close>

datatype error = OutOfRange | AssertionFailed | Undefined

definition ebind :: "error + 'a \<Rightarrow> ('a \<Rightarrow> error + 'b) \<Rightarrow> error + 'b" where
  "ebind m f = (case m of Inl e \<Rightarrow> Inl e | Inr x \<Rightarrow> f x)"

definition assertion :: "bool \<Rightarrow> error + unit" where
  "assertion c = (if c then Inr () else Inl AssertionFailed)"

text \<open>
  Subtraction of \<open>size_t\<close>: the operands are below \<open>2 ^ 64\<close> and the result wraps around.
\<close>

definition sub64 :: "nat \<Rightarrow> nat \<Rightarrow> nat" where
  "sub64 a b = (a + 2 ^ 64 - b) mod 2 ^ 64"

subsection \<open>Bit primitives of a leaf\<close>

text \<open>
  Modelled from the spec: \<open>get_bit\<close> and \<open>insert_bit\<close> are declared in \<open>bits.h\<close>, which is
  not among the source files. The spec gives
  \<open>insert_bit(word, k, b) = (word & lowmask(k)) | (b << k) | ((word & ~lowmask(k)) << 1)\<close>;
  \<open>get_bit(word, k)\<close> is bit \<open>k\<close> of the word.
\<close>

definition get_bit :: "word_t \<Rightarrow> nat \<Rightarrow> bool" where
  "get_bit w k = bit w k"

definition insert_bit :: "word_t \<Rightarrow> nat \<Rightarrow> bool \<Rightarrow> word_t" where
  "insert_bit w k b = (w AND mask k) OR push_bit k (of_bool b) OR push_bit 1 (w AND NOT (mask k))"

subsection \<open>Packed arrays\<close>

text \<open>
  Modelled from the spec: the class \<open>packed_array\<close> that holds the nodes (and the width-1
  \<open>packed_view<W>\<close> that \<open>redistribute_bits\<close> uses as scratch space) is not among the source
  files. It is the packed view of the spec: an array of fields of equal width over a bit
  view, its \<open>index_mask\<close> the field mask and its \<open>flagbit_mask\<close> the flag mask. A range of
  fields is read and written as one word (\<open>get_range\<close>, \<open>set_range\<close>); \<open>+=\<close> on a range adds
  a word to the word of the range and \<open><<=\<close> shifts it, keeping the bits of the range;
  assigning one range to another copies its bits.

  The array of sizes reserves the high bit of each field as the flag bit: a field of it
  read as a number has the flag bit stripped (the source's comment on \<open>sizes(k)\<close>), and the
  word of a node's sizes that \<open>find_insert_point\<close> subtracts from has the flag bit of every
  field set (the spec's comparison by subtraction).
\<close>

definition pv_add :: "packed_view \<Rightarrow> nat \<Rightarrow> nat \<Rightarrow> word_t \<Rightarrow> packed_view" where
  "pv_add v b e x = pv_set v b e (pv_get v b e + x)"

definition pv_shl :: "packed_view \<Rightarrow> nat \<Rightarrow> nat \<Rightarrow> nat \<Rightarrow> packed_view" where
  "pv_shl v b e n = pv_set v b e (push_bit n (pv_get v b e))"

definition bv_copy :: "bitview \<Rightarrow> bitview \<Rightarrow> nat \<Rightarrow> nat \<Rightarrow> nat \<Rightarrow> bitview" where
  "bv_copy dst src sb se db =
     (if sb \<le> se \<and> se \<le> length src \<and> db + (se - sb) \<le> length dst
      then take db dst @ take (se - sb) (drop sb src) @ drop (db + (se - sb)) dst
      else dst)"

definition pv_copy :: "packed_view \<Rightarrow> nat \<Rightarrow> packed_view \<Rightarrow> nat \<Rightarrow> nat \<Rightarrow> packed_view" where
  "pv_copy dst db src sb se =
     dst\<lparr>pv_bits := bv_copy (pv_bits dst) (pv_bits src)
                        (sb * pv_width src) (se * pv_width src) (db * pv_width dst)\<rparr>"

definition pv_field :: "packed_view \<Rightarrow> nat \<Rightarrow> nat" where
  "pv_field v k = unat (pv_get v k (k + 1))"

definition pv_size_field :: "packed_view \<Rightarrow> nat \<Rightarrow> nat" where
  "pv_size_field v k = unat (lowbits (pv_get v k (k + 1)) (pv_width v - 1))"

subsection \<open>The bit vector and the references to its subtrees\<close>

record bitvector =
  v_capacity :: nat
  v_size :: nat
  v_rank :: nat
  v_height :: nat
  v_counter_width :: nat
  v_pointer_width :: nat
  v_degree :: nat
  v_leaves_buffer :: nat
  v_nodes_buffer :: nat
  v_free_node :: nat
  v_sizes :: packed_view
  v_ranks :: packed_view
  v_pointers :: packed_view
  v_leaves :: "word_t list"

text \<open>
  \<open>subtree_ref_t\<close>: the index of the node or leaf, the height, and the size and rank of the
  subtree as its parent knows them. The reference to the vector is the state passed along.
\<close>

record subtree_ref =
  t_index :: nat
  t_height :: nat
  t_size :: nat
  t_rank :: nat

definition root :: "bitvector \<Rightarrow> subtree_ref" where
  "root st = \<lparr>t_index = 0, t_height = v_height st, t_size = v_size st, t_rank = v_rank st\<rparr>"

definition index_mask :: "bitvector \<Rightarrow> word_t" where
  "index_mask st = field_mask (v_sizes st)"

definition size_flag_mask :: "bitvector \<Rightarrow> word_t" where
  "size_flag_mask st = flag_mask (v_sizes st)"

definition alloc_node :: "bitvector \<Rightarrow> error + bitvector \<times> nat" where
  "alloc_node st =
     ebind (assertion (v_free_node st < pv_size (v_sizes st)))
       (\<lambda>_. Inr (st\<lparr>v_free_node := v_free_node st + 1\<rparr>, v_free_node st))"

definition alloc_leaf :: "bitvector \<Rightarrow> bitvector \<times> nat" where
  "alloc_leaf st = (st\<lparr>v_leaves := v_leaves st @ [0]\<rparr>, length (v_leaves st))"

definition is_leaf :: "subtree_ref \<Rightarrow> bool" where
  "is_leaf t = (t_height t = 0)"

definition is_node :: "subtree_ref \<Rightarrow> bool" where
  "is_node t = (0 < t_height t)"

definition is_root :: "bitvector \<Rightarrow> subtree_ref \<Rightarrow> error + bool" where
  "is_root st t =
     ebind (assertion (t_index t \<noteq> 0 \<or> t_height t = v_height st))
       (\<lambda>_. ebind (assertion (t_height t \<noteq> v_height st \<or> t_index t = 0))
       (\<lambda>_. Inr (t_index t = 0)))"

text \<open>
  \<open>sizes(begin, end)\<close>, \<open>ranks(begin, end)\<close> and \<open>pointers(begin, end)\<close> check their
  arguments and give the range of fields of the node in its array.
\<close>

definition sizes_range :: "bitvector \<Rightarrow> subtree_ref \<Rightarrow> nat \<Rightarrow> nat \<Rightarrow> error + nat \<times> nat" where
  "sizes_range st t b e =
     ebind (assertion (is_node t))
       (\<lambda>_. ebind (assertion (b < v_degree st))
       (\<lambda>_. ebind (assertion (e \<le> v_degree st))
       (\<lambda>_. Inr (t_index t * v_degree st + b, t_index t * v_degree st + e))))"

definition ranks_range :: "bitvector \<Rightarrow> subtree_ref \<Rightarrow> nat \<Rightarrow> nat \<Rightarrow> error + nat \<times> nat" where
  "ranks_range st t b e =
     ebind (assertion (is_node t))
       (\<lambda>_. ebind (assertion (b < v_degree st))
       (\<lambda>_. ebind (assertion (e \<le> v_degree st))
       (\<lambda>_. Inr (t_index t * v_degree st + b, t_index t * v_degree st + e))))"

definition pointers_range :: "bitvector \<Rightarrow> subtree_ref \<Rightarrow> nat \<Rightarrow> nat \<Rightarrow> error + nat \<times> nat" where
  "pointers_range st t b e =
     ebind (assertion (is_node t))
       (\<lambda>_. ebind (assertion (b = e \<or> b < v_degree st + 1))
       (\<lambda>_. ebind (assertion (e \<le> v_degree st + 1))
       (\<lambda>_. Inr (t_index t * (v_degree st + 1) + b, t_index t * (v_degree st + 1) + e))))"

text \<open>The value of the field \<open>k\<close>: \<open>sizes(k)\<close>, \<open>ranks(k)\<close>, \<open>pointers(k)\<close> read as a number.\<close>

definition sizes_at :: "bitvector \<Rightarrow> subtree_ref \<Rightarrow> nat \<Rightarrow> error + nat" where
  "sizes_at st t k =
     ebind (sizes_range st t k (k + 1)) (\<lambda>(b, e). Inr (pv_size_field (v_sizes st) b))"

definition ranks_at :: "bitvector \<Rightarrow> subtree_ref \<Rightarrow> nat \<Rightarrow> error + nat" where
  "ranks_at st t k =
     ebind (ranks_range st t k (k + 1)) (\<lambda>(b, e). Inr (pv_field (v_ranks st) b))"

definition pointers_at :: "bitvector \<Rightarrow> subtree_ref \<Rightarrow> nat \<Rightarrow> error + nat" where
  "pointers_at st t k =
     ebind (pointers_range st t k (k + 1)) (\<lambda>(b, e). Inr (pv_field (v_pointers st) b))"

text \<open>Writes through the references: assignment of a word, \<open>+=\<close> and \<open><<=\<close> on a range.\<close>

definition set_sizes :: "bitvector \<Rightarrow> subtree_ref \<Rightarrow> nat \<Rightarrow> nat \<Rightarrow> word_t \<Rightarrow> error + bitvector" where
  "set_sizes st t b e x =
     ebind (sizes_range st t b e) (\<lambda>(b', e'). Inr (st\<lparr>v_sizes := pv_set (v_sizes st) b' e' x\<rparr>))"

definition set_ranks :: "bitvector \<Rightarrow> subtree_ref \<Rightarrow> nat \<Rightarrow> nat \<Rightarrow> word_t \<Rightarrow> error + bitvector" where
  "set_ranks st t b e x =
     ebind (ranks_range st t b e) (\<lambda>(b', e'). Inr (st\<lparr>v_ranks := pv_set (v_ranks st) b' e' x\<rparr>))"

definition set_pointers :: "bitvector \<Rightarrow> subtree_ref \<Rightarrow> nat \<Rightarrow> nat \<Rightarrow> word_t \<Rightarrow> error + bitvector" where
  "set_pointers st t b e x =
     ebind (pointers_range st t b e)
       (\<lambda>(b', e'). Inr (st\<lparr>v_pointers := pv_set (v_pointers st) b' e' x\<rparr>))"

definition add_sizes :: "bitvector \<Rightarrow> subtree_ref \<Rightarrow> nat \<Rightarrow> nat \<Rightarrow> word_t \<Rightarrow> error + bitvector" where
  "add_sizes st t b e x =
     ebind (sizes_range st t b e) (\<lambda>(b', e'). Inr (st\<lparr>v_sizes := pv_add (v_sizes st) b' e' x\<rparr>))"

definition add_ranks :: "bitvector \<Rightarrow> subtree_ref \<Rightarrow> nat \<Rightarrow> nat \<Rightarrow> word_t \<Rightarrow> error + bitvector" where
  "add_ranks st t b e x =
     ebind (ranks_range st t b e) (\<lambda>(b', e'). Inr (st\<lparr>v_ranks := pv_add (v_ranks st) b' e' x\<rparr>))"

definition shl_sizes :: "bitvector \<Rightarrow> subtree_ref \<Rightarrow> nat \<Rightarrow> nat \<Rightarrow> nat \<Rightarrow> error + bitvector" where
  "shl_sizes st t b e n =
     ebind (sizes_range st t b e) (\<lambda>(b', e'). Inr (st\<lparr>v_sizes := pv_shl (v_sizes st) b' e' n\<rparr>))"

definition shl_ranks :: "bitvector \<Rightarrow> subtree_ref \<Rightarrow> nat \<Rightarrow> nat \<Rightarrow> nat \<Rightarrow> error + bitvector" where
  "shl_ranks st t b e n =
     ebind (ranks_range st t b e) (\<lambda>(b', e'). Inr (st\<lparr>v_ranks := pv_shl (v_ranks st) b' e' n\<rparr>))"

definition shl_pointers :: "bitvector \<Rightarrow> subtree_ref \<Rightarrow> nat \<Rightarrow> nat \<Rightarrow> nat \<Rightarrow> error + bitvector" where
  "shl_pointers st t b e n =
     ebind (pointers_range st t b e)
       (\<lambda>(b', e'). Inr (st\<lparr>v_pointers := pv_shl (v_pointers st) b' e' n\<rparr>))"

text \<open>\<open>clear_keys(begin, end)\<close>.\<close>

definition clear_keys :: "bitvector \<Rightarrow> subtree_ref \<Rightarrow> nat \<Rightarrow> nat \<Rightarrow> error + bitvector" where
  "clear_keys st t b e =
     ebind (set_sizes st t b e 0) (\<lambda>st1. set_ranks st1 t b e 0)"

text \<open>
  \<open>child(k)\<close>: the reference to the child \<open>k\<close>, with the size and rank computed from the
  cumulative counters of the node.
\<close>

definition child :: "bitvector \<Rightarrow> subtree_ref \<Rightarrow> nat \<Rightarrow> error + subtree_ref" where
  "child st t k =
     ebind (assertion (k \<le> v_degree st))
       (\<lambda>_. ebind (pointers_at st t k)
       (\<lambda>p0. ebind (assertion (p0 \<noteq> 0))
       (\<lambda>_. ebind (pointers_at st t k)
       (\<lambda>p. let h = sub64 (t_height t) 1 in
          ebind (if k = 0 then sizes_at st t k
                 else if k = v_degree st
                   then ebind (sizes_at st t (k - 1)) (\<lambda>s1. Inr (sub64 (t_size t) s1))
                   else ebind (sizes_at st t k)
                          (\<lambda>s0. ebind (sizes_at st t (k - 1)) (\<lambda>s1. Inr (sub64 s0 s1))))
       (\<lambda>s. ebind (if k = 0 then ranks_at st t k
                 else if k = v_degree st
                   then ebind (ranks_at st t (k - 1)) (\<lambda>r1. Inr (sub64 (t_rank t) r1))
                   else ebind (ranks_at st t k)
                          (\<lambda>r0. ebind (ranks_at st t (k - 1)) (\<lambda>r1. Inr (sub64 r0 r1))))
       (\<lambda>r. Inr \<lparr>t_index = p, t_height = h, t_size = s, t_rank = r\<rparr>))))))"

text \<open>
  \<open>leaf()\<close>: the word of the leaf. The source indexes the vector of leaves without a
  check; an index past its end is undefined behaviour.
\<close>

definition leaf :: "bitvector \<Rightarrow> subtree_ref \<Rightarrow> error + word_t" where
  "leaf st t =
     ebind (assertion (is_leaf t))
       (\<lambda>_. if t_index t < length (v_leaves st) then Inr (v_leaves st ! t_index t)
            else Inl Undefined)"

definition set_leaf :: "bitvector \<Rightarrow> subtree_ref \<Rightarrow> word_t \<Rightarrow> error + bitvector" where
  "set_leaf st t x =
     ebind (assertion (is_leaf t))
       (\<lambda>_. if t_index t < length (v_leaves st)
            then Inr (st\<lparr>v_leaves := (v_leaves st)[t_index t := x]\<rparr>)
            else Inl Undefined)"

text \<open>
  \<open>insert_child(k)\<close>: shifts the keys from \<open>k\<close> on and the pointers after \<open>k\<close> by one field,
  and stores a fresh leaf or node at \<open>k\<close>.
\<close>

definition insert_child :: "bitvector \<Rightarrow> subtree_ref \<Rightarrow> nat \<Rightarrow> error + bitvector" where
  "insert_child st t k =
     ebind (assertion (is_node t))
       (\<lambda>_. ebind (assertion (k \<le> v_degree st))
       (\<lambda>_. ebind
          (if k < v_degree st
           then ebind (sizes_at st t k)
             (\<lambda>s. ebind (ranks_at st t k)
             (\<lambda>r. ebind (shl_sizes st t k (v_degree st) (v_counter_width st))
             (\<lambda>st1. ebind (shl_ranks st1 t k (v_degree st) (v_counter_width st))
             (\<lambda>st2. ebind (shl_pointers st2 t (k + 1) (v_degree st + 1) (v_pointer_width st))
             (\<lambda>st3. ebind (set_sizes st3 t k (k + 1) (of_nat s))
             (\<lambda>st4. set_ranks st4 t k (k + 1) (of_nat r)))))))
           else Inr st)
       (\<lambda>st5. ebind (if t_height t = 1 then Inr (alloc_leaf st5) else alloc_node st5)
       (\<lambda>(st6, p). set_pointers st6 t k (k + 1) (of_nat p)))))"

text \<open>
  \<open>copy()\<close>: a fresh node with the three words of the node, or a fresh leaf with the word
  of the leaf.
\<close>

definition copy :: "bitvector \<Rightarrow> subtree_ref \<Rightarrow> error + bitvector \<times> subtree_ref" where
  "copy st t =
     (if is_node t
      then ebind (alloc_node st)
        (\<lambda>(st1, i). let r = t\<lparr>t_index := i\<rparr> in
           ebind (sizes_range st1 r 0 (v_degree st1))
        (\<lambda>(db, de). ebind (sizes_range st1 t 0 (v_degree st1))
        (\<lambda>(sb, se). let st2 = st1\<lparr>v_sizes := pv_copy (v_sizes st1) db (v_sizes st1) sb se\<rparr> in
           ebind (ranks_range st2 r 0 (v_degree st2))
        (\<lambda>(db, de). ebind (ranks_range st2 t 0 (v_degree st2))
        (\<lambda>(sb, se). let st3 = st2\<lparr>v_ranks := pv_copy (v_ranks st2) db (v_ranks st2) sb se\<rparr> in
           ebind (pointers_range st3 r 0 (v_degree st3 + 1))
        (\<lambda>(db, de). ebind (pointers_range st3 t 0 (v_degree st3 + 1))
        (\<lambda>(sb, se).
           Inr (st3\<lparr>v_pointers := pv_copy (v_pointers st3) db (v_pointers st3) sb se\<rparr>, r))))))))
      else (let (st1, i) = alloc_leaf st; r = t\<lparr>t_index := i\<rparr> in
           ebind (leaf st1 t) (\<lambda>x. ebind (set_leaf st1 r x) (\<lambda>st2. Inr (st2, r)))))"

text \<open>
  \<open>find_insert_point(index)\<close>: the child where a bit can be inserted at \<open>index\<close>, and the
  index inside that child.
\<close>

definition sizes_word :: "bitvector \<Rightarrow> subtree_ref \<Rightarrow> error + word_t" where
  "sizes_word st t =
     ebind (sizes_range st t 0 (v_degree st))
       (\<lambda>(b, e). Inr (pv_get (v_sizes st) b e OR flag_mask (v_sizes st)))"

definition find_insert_point :: "bitvector \<Rightarrow> subtree_ref \<Rightarrow> nat \<Rightarrow> error + nat \<times> nat" where
  "find_insert_point st t index =
     ebind (assertion (is_node t))
       (\<lambda>_. ebind (sizes_word st t)
       (\<lambda>sz. let child_ix = sub64 (v_degree st)
                  (popcount (size_flag_mask st AND (sz - index_mask st * of_nat index)))
             in if 0 < child_ix
                then ebind (sizes_at st t (child_ix - 1))
                       (\<lambda>s. Inr (child_ix, sub64 index s))
                else Inr (child_ix, index)))"

text \<open>\<open>find(index)\<close>: the child where the bit at \<open>index\<close> is, and its index inside that child.\<close>

definition subtree_find :: "bitvector \<Rightarrow> subtree_ref \<Rightarrow> nat \<Rightarrow> error + nat \<times> nat" where
  "subtree_find st t index =
     ebind (find_insert_point st t index)
       (\<lambda>(child_ix, new_index). ebind (child st t child_ix)
       (\<lambda>c. let (child_ix', new_index') =
                  (if new_index = t_size c then (child_ix + 1, 0) else (child_ix, new_index))
            in ebind (assertion (child_ix' < v_degree st + 1))
                 (\<lambda>_. Inr (child_ix', new_index'))))"

text \<open>\<open>nkeys()\<close>: the number of used keys of the node.\<close>

definition nkeys :: "bitvector \<Rightarrow> subtree_ref \<Rightarrow> error + nat" where
  "nkeys st t =
     ebind (find_insert_point st t (sub64 (t_size t) 1))
       (\<lambda>(child_ix, _). Inr (min (child_ix + 1) (v_degree st)))"

subsection \<open>Access\<close>

text \<open>
  \<open>access(t, index)\<close> descends from \<open>t\<close> to a leaf. Each call goes to a child, whose height
  is one less.
\<close>

function access :: "bitvector \<Rightarrow> subtree_ref \<Rightarrow> nat \<Rightarrow> error + bool" where
  "access st t index =
     (if t_size t \<le> index then Inl OutOfRange
      else if is_leaf t then
        (case leaf st t of Inl e \<Rightarrow> Inl e | Inr w \<Rightarrow> Inr (get_bit w index))
      else
        (case subtree_find st t index of
           Inl e \<Rightarrow> Inl e
         | Inr (child_ix, new_index) \<Rightarrow>
             (case child st t child_ix of
                Inl e \<Rightarrow> Inl e
              | Inr c \<Rightarrow> access st c new_index)))"
  by pat_completeness auto

termination
proof (relation "measure (\<lambda>(st, t, index). t_height t)")
  show "wf (measure (\<lambda>(st, t, index). t_height t))" by simp
next
  fix st :: bitvector and t :: subtree_ref and index x2 x y c
  assume "child st t x = Inr c"
  then have h: "0 < t_height t" "t_height c = sub64 (t_height t) 1"
    by (auto simp: child_def ebind_def assertion_def pointers_at_def pointers_range_def
          is_node_def Let_def split: sum.splits if_splits prod.splits)
  have "sub64 (t_height t) 1 < t_height t"
  proof (cases "t_height t < 2 ^ 64")
    case True
    have e1: "t_height t + 2 ^ 64 - 1 = (t_height t - 1) + 2 ^ 64" using h(1) by simp
    have e2: "t_height t - 1 < 2 ^ 64" using True by simp
    have "sub64 (t_height t) 1 = t_height t - 1"
      unfolding sub64_def e1 using e2 by (simp only: mod_add_self2 mod_less)
    then show ?thesis using h(1) by simp
  next
    case False
    have "sub64 (t_height t) 1 < 2 ^ 64" unfolding sub64_def by simp
    then show ?thesis using False by linarith
  qed
  then show "((st, c, y), (st, t, index)) \<in> measure (\<lambda>(st, t, index). t_height t)"
    using h(2) by simp
qed

declare access.simps [simp del]

subsection \<open>Choosing the children to redistribute\<close>

text \<open>
  The local function \<open>count\<close> of \<open>find_adjacent_children\<close>: the free slots of the child \<open>i\<close>,
  bits of a leaf or keys of a node; an absent child counts as empty.
\<close>

definition free_slots :: "bitvector \<Rightarrow> subtree_ref \<Rightarrow> bool \<Rightarrow> nat \<Rightarrow> nat \<Rightarrow> error + nat" where
  "free_slots st t lf max_count i =
     ebind (pointers_at st t i)
       (\<lambda>p. if p = 0 then Inr max_count
            else if lf then ebind (child st t i) (\<lambda>c. Inr (sub64 W (t_size c)))
            else ebind (child st t i)
                   (\<lambda>c. ebind (nkeys st c) (\<lambda>n. Inr (sub64 (v_degree st) n))))"

text \<open>The sum of the free slots over the initial window.\<close>

fun sum_slots ::
  "bitvector \<Rightarrow> subtree_ref \<Rightarrow> bool \<Rightarrow> nat \<Rightarrow> nat list \<Rightarrow> nat \<Rightarrow> error + nat" where
  "sum_slots st t lf max_count [] freeslots = Inr freeslots"
| "sum_slots st t lf max_count (i # is) freeslots =
     (case free_slots st t lf max_count i of
        Inl e \<Rightarrow> Inl e
      | Inr c \<Rightarrow> sum_slots st t lf max_count is ((freeslots + c) mod 2 ^ 64))"

text \<open>
  The initial window: \<open>begin = child > buffer ? child - buffer - 1 : 0\<close> and
  \<open>end = min(begin + buffer, degree() + 1)\<close>.
\<close>

definition initial_window :: "bitvector \<Rightarrow> nat \<Rightarrow> nat \<Rightarrow> nat \<times> nat" where
  "initial_window st buffer child_ix =
     (let b0 = (if buffer < child_ix then child_ix - buffer - 1 else 0)
      in (b0, min (b0 + buffer) (v_degree st + 1)))"

text \<open>
  The loop that slides the window, from its state: the bounds \<open>b\<close> and \<open>e\<close> of the running
  window, its free slots, the best count so far and the window that had it.
\<close>

function slide_window ::
  "bitvector \<Rightarrow> subtree_ref \<Rightarrow> bool \<Rightarrow> nat \<Rightarrow> nat \<Rightarrow> nat \<Rightarrow> nat \<Rightarrow> nat \<Rightarrow> nat \<Rightarrow> nat \<times> nat
   \<Rightarrow> error + nat \<times> nat \<times> nat \<times> (nat \<times> nat)" where
  "slide_window st t lf max_count child_ix b e freeslots maxfreeslots window =
     (if b < child_ix \<and> e < v_degree st + 1
      then (case free_slots st t lf max_count b of
              Inl err \<Rightarrow> Inl err
            | Inr cb \<Rightarrow>
               (case free_slots st t lf max_count (sub64 e 1) of
                  Inl err \<Rightarrow> Inl err
                | Inr ce \<Rightarrow>
                   (let freeslots' = (sub64 freeslots cb + ce) mod 2 ^ 64
                    in if maxfreeslots < freeslots'
                       then slide_window st t lf max_count child_ix (b + 1) (e + 1)
                              freeslots' freeslots' (b + 1, e + 1)
                       else slide_window st t lf max_count child_ix (b + 1) (e + 1)
                              freeslots' maxfreeslots window)))
      else Inr (b, e, maxfreeslots, window))"
  by pat_completeness auto
termination
  by (relation "measure (\<lambda>(st, t, lf, max_count, child_ix, b, e, fs, mfs, w). child_ix - b)")
    auto

declare slide_window.simps [simp del]

definition find_adjacent_children ::
  "bitvector \<Rightarrow> subtree_ref \<Rightarrow> nat \<Rightarrow> error + nat \<times> nat \<times> nat" where
  "find_adjacent_children st t child_ix =
     ebind (child st t child_ix)
       (\<lambda>c. let lf = is_leaf c;
                buffer = (if lf then v_leaves_buffer st else v_nodes_buffer st);
                max_count = (if lf then W else v_degree st);
                (b0, e0) = initial_window st buffer child_ix
            in ebind (sum_slots st t lf max_count [b0..<e0] 0)
       (\<lambda>freeslots.
               ebind (slide_window st t lf max_count child_ix b0 e0 freeslots freeslots (b0, e0))
       (\<lambda>(b1, e1, maxfreeslots, window).
               let total = sub64 ((max_count * buffer) mod 2 ^ 64) maxfreeslots
               in ebind (assertion (b1 \<le> child_ix \<and> child_ix < e1))
       (\<lambda>_. Inr (fst window, snd window, total)))))"

subsection \<open>Redistribution of the bits of leaves\<close>

text \<open>The first loop of \<open>redistribute_bits\<close>: the bits of the leaves of the window, in order.\<close>

fun gather_bits ::
  "bitvector \<Rightarrow> subtree_ref \<Rightarrow> nat list \<Rightarrow> packed_view \<Rightarrow> nat \<Rightarrow> error + packed_view" where
  "gather_bits st t [] view p = Inr view"
| "gather_bits st t (i # is) view p =
     (case pointers_at st t i of
        Inl e \<Rightarrow> Inl e
      | Inr ptr \<Rightarrow>
         if ptr \<noteq> 0
         then (case child st t i of
                 Inl e \<Rightarrow> Inl e
               | Inr c \<Rightarrow>
                  (case leaf st c of
                     Inl e \<Rightarrow> Inl e
                   | Inr w \<Rightarrow>
                      gather_bits st t is (pv_set view p (p + t_size c) w) (p + t_size c)))
         else gather_bits st t is view p)"

text \<open>
  The second loop: each leaf of the window receives its share of the bits, and the
  counters from the leaf on are raised. Its state is the vector with \<open>rem\<close>, \<open>p\<close>, \<open>popcnt\<close>
  and \<open>count\<close>.
\<close>

fun scatter_bits ::
  "subtree_ref \<Rightarrow> packed_view \<Rightarrow> nat \<Rightarrow> nat list \<Rightarrow> bitvector \<Rightarrow> nat \<Rightarrow> nat \<Rightarrow> nat \<Rightarrow> nat
   \<Rightarrow> error + bitvector \<times> nat" where
  "scatter_bits t view bits_per_leaf [] st rem p popcnt count = Inr (st, count)"
| "scatter_bits t view bits_per_leaf (i # is) st rem p popcnt count =
     (let n = (if rem \<noteq> 0 then bits_per_leaf + 1 else bits_per_leaf);
          rem' = (if rem \<noteq> 0 then rem - 1 else rem)
      in case pointers_at st t i of
           Inl e \<Rightarrow> Inl e
         | Inr ptr \<Rightarrow>
            (case (if ptr = 0 then insert_child st t i else Inr st) of
               Inl e \<Rightarrow> Inl e
             | Inr st1 \<Rightarrow>
                (let lf = pv_get view p (p + n)
                 in case ebind (child st1 t i) (\<lambda>c. set_leaf st1 c lf) of
                      Inl e \<Rightarrow> Inl e
                    | Inr st2 \<Rightarrow>
                       if i < v_degree st2
                       then (case ebind (add_sizes st2 t i (v_degree st2) (of_nat (p + n)))
                                    (\<lambda>st3. add_ranks st3 t i (v_degree st3)
                                              (of_nat (popcnt + popcount lf))) of
                               Inl e \<Rightarrow> Inl e
                             | Inr st4 \<Rightarrow>
                                scatter_bits t view bits_per_leaf is st4 rem' (p + n)
                                  (popcnt + popcount lf) (sub64 count n))
                       else scatter_bits t view bits_per_leaf is st2 rem' p popcnt
                              (sub64 count n))))"

definition redistribute_bits ::
  "bitvector \<Rightarrow> subtree_ref \<Rightarrow> nat \<Rightarrow> nat \<Rightarrow> nat \<Rightarrow> error + bitvector" where
  "redistribute_bits st t b e count =
     (let bw = sub64 e b
      in if bw = 0 then Inl Undefined
         else
          (let bits_per_leaf = count div bw;
               rem = count mod bw;
               view0 = \<lparr>pv_bits = replicate (v_leaves_buffer st * W) False, pv_width = 1,
                        pv_field_mask = compute_field_mask 1\<rparr>
           in ebind (assertion (bw = v_leaves_buffer st \<or> bw = v_leaves_buffer st + 1))
          (\<lambda>_. ebind (gather_bits st t [b..<e] view0 0)
          (\<lambda>view. ebind
              (if 0 < b
               then ebind (pointers_at st t (b - 1))
                 (\<lambda>ptr. if ptr \<noteq> 0
                    then ebind (child st t (b - 1))
                      (\<lambda>c. ebind (set_sizes st t b e (index_mask st * of_nat (t_size c)))
                      (\<lambda>st1. ebind (child st1 t (b - 1))
                      (\<lambda>c1. set_ranks st1 t b e (index_mask st1 * of_nat (t_rank c1)))))
                    else Inr st)
               else Inr st)
          (\<lambda>st2. ebind (clear_keys st2 t b e)
          (\<lambda>st3. ebind (scatter_bits t view bits_per_leaf [b..<e] st3 rem 0 0 count)
          (\<lambda>(st4, count'). ebind (assertion (count' = 0))
          (\<lambda>_. Inr st4))))))))"

subsection \<open>Redistribution of the keys of nodes\<close>

text \<open>
  An entry of the local vector \<open>pointers\<close> of \<open>redistribute_keys\<close>: size, rank and pointer of
  a grandchild.
\<close>

type_synonym key_entry = "nat \<times> nat \<times> nat"

fun emap :: "('a \<Rightarrow> error + 'b) \<Rightarrow> 'a list \<Rightarrow> error + 'b list" where
  "emap f [] = Inr []"
| "emap f (x # xs) =
     (case f x of
        Inl e \<Rightarrow> Inl e
      | Inr y \<Rightarrow> (case emap f xs of Inl e \<Rightarrow> Inl e | Inr ys \<Rightarrow> Inr (y # ys)))"

definition key_of :: "bitvector \<Rightarrow> subtree_ref \<Rightarrow> nat \<times> nat \<Rightarrow> error + key_entry" where
  "key_of st t ic =
     (case ic of (i, c) \<Rightarrow>
        ebind (child st t i)
          (\<lambda>n. ebind (child st n c)
          (\<lambda>g. ebind (pointers_at st n c)
          (\<lambda>p. Inr (t_size g, t_rank g, p)))))"

text \<open>The inner loop over \<open>j\<close>: the node \<open>child(i)\<close> receives \<open>n\<close> entries from position \<open>p\<close> on.\<close>

fun set_keys ::
  "subtree_ref \<Rightarrow> nat \<Rightarrow> key_entry list \<Rightarrow> nat \<Rightarrow> nat list \<Rightarrow> bitvector \<Rightarrow> error + bitvector" where
  "set_keys t i keys p [] st = Inr st"
| "set_keys t i keys p (j # js) st =
     (if p + j < length keys
      then (case keys ! (p + j) of (ksize, krank, kptr) \<Rightarrow>
        (case ebind (child st t i) (\<lambda>c. set_pointers st c j (j + 1) (of_nat kptr)) of
           Inl e \<Rightarrow> Inl e
         | Inr st1 \<Rightarrow>
            (case ebind (child st1 t i)
                    (\<lambda>c. add_sizes st1 c j (v_degree st1) (index_mask st1 * of_nat ksize)) of
               Inl e \<Rightarrow> Inl e
             | Inr st2 \<Rightarrow>
                (case ebind (child st2 t i)
                        (\<lambda>c. add_ranks st2 c j (v_degree st2) (index_mask st2 * of_nat krank)) of
                   Inl e \<Rightarrow> Inl e
                 | Inr st3 \<Rightarrow> set_keys t i keys p js st3))))
      else Inl Undefined)"

text \<open>The outer loop over the nodes of the window, with \<open>rem\<close>, \<open>p\<close> and \<open>count\<close>.\<close>

fun distribute_keys ::
  "subtree_ref \<Rightarrow> key_entry list \<Rightarrow> nat \<Rightarrow> nat list \<Rightarrow> bitvector \<Rightarrow> nat \<Rightarrow> nat \<Rightarrow> nat
   \<Rightarrow> error + bitvector \<times> nat" where
  "distribute_keys t keys keys_per_node [] st rem p count = Inr (st, count)"
| "distribute_keys t keys keys_per_node (i # is) st rem p count =
     (let n = (if rem \<noteq> 0 then keys_per_node + 1 else keys_per_node);
          rem' = (if rem \<noteq> 0 then rem - 1 else rem)
      in case ebind (child st t i) (\<lambda>c. set_sizes st c 0 (v_degree st) 0) of
           Inl e \<Rightarrow> Inl e
         | Inr st1 \<Rightarrow>
            (case ebind (child st1 t i) (\<lambda>c. set_ranks st1 c 0 (v_degree st1) 0) of
               Inl e \<Rightarrow> Inl e
             | Inr st2 \<Rightarrow>
                (case set_keys t i keys p [0..<n] st2 of
                   Inl e \<Rightarrow> Inl e
                 | Inr st3 \<Rightarrow>
                    distribute_keys t keys keys_per_node is st3 rem' (p + n) (sub64 count n))))"

text \<open>
  \<open>redistribute_keys\<close>. The vector \<open>pointers\<close> is constructed with
  \<open>_nodes_buffer * (degree() + 1)\<close> entries, all zero, and the entries of the grandchildren
  are pushed behind them.
\<close>

definition redistribute_keys ::
  "bitvector \<Rightarrow> subtree_ref \<Rightarrow> nat \<Rightarrow> nat \<Rightarrow> nat \<Rightarrow> error + bitvector" where
  "redistribute_keys st t b e count =
     (let bw = sub64 e b
      in if bw = 0 then Inl Undefined
         else
          (let keys_per_node = count div bw;
               rem = count mod bw;
               keys0 = replicate (v_nodes_buffer st * (v_degree st + 1)) (0, 0, 0)
           in ebind (assertion (bw = v_nodes_buffer st \<or> bw = v_nodes_buffer st + 1))
          (\<lambda>_. ebind (emap (key_of st t)
                        (concat (map (\<lambda>i. map (\<lambda>c. (i, c)) [0..<v_degree st + 1]) [b..<e])))
          (\<lambda>pushed. ebind (distribute_keys t (keys0 @ pushed) keys_per_node [b..<e] st rem 0 count)
          (\<lambda>(st1, count'). ebind (assertion (count' = 0))
          (\<lambda>_. Inr st1))))))"

subsection \<open>Insertion\<close>

text \<open>
  The split of the root (the body of the first \<open>if\<close> of \<open>insert\<close>, before it starts again
  from the new root): the root is copied to a fresh node, emptied and made to point to
  the copy, and the height of the tree grows by one.
\<close>

definition root_split :: "bitvector \<Rightarrow> subtree_ref \<Rightarrow> error + bitvector" where
  "root_split st t =
     ebind (is_root st t)
       (\<lambda>r. ebind (assertion r)
       (\<lambda>_. ebind (copy st t)
       (\<lambda>(st1, old_root).
          ebind (set_sizes st1 t 0 (v_degree st1) (index_mask st1 * of_nat (t_size t)))
       (\<lambda>st2. ebind (set_ranks st2 t 0 (v_degree st2) (index_mask st2 * of_nat (t_rank t)))
       (\<lambda>st3. ebind (set_pointers st3 t 0 (v_degree st3 + 1) 0)
       (\<lambda>st4. ebind (set_pointers st4 t 0 1 (of_nat (t_index old_root)))
       (\<lambda>st5. let st6 = st5\<lparr>v_height := v_height st5 + 1\<rparr>
              in ebind (nkeys st6 (root st6))
       (\<lambda>nk. ebind (assertion (nk = 1))
       (\<lambda>_. ebind (child st6 (root st6) 0)
       (\<lambda>c0. ebind (nkeys st6 c0)
       (\<lambda>nk0. ebind (assertion (nk0 = v_degree st6))
       (\<lambda>_. Inr st6))))))))))))"

text \<open>
  The branch of \<open>insert\<close> for a node of height 1: redistribution when the leaf is full,
  update of the counters, and insertion of the bit into the leaf.
\<close>

definition insert_into_leaf ::
  "bitvector \<Rightarrow> subtree_ref \<Rightarrow> nat \<Rightarrow> bool \<Rightarrow> nat \<Rightarrow> nat \<Rightarrow> error + bitvector" where
  "insert_into_leaf st t index b child_ix new_index =
     ebind (child st t child_ix)
       (\<lambda>c. ebind
          (if t_size c = W
           then ebind (find_adjacent_children st t child_ix)
             (\<lambda>(wb, we, count). ebind
                (if (v_leaves_buffer st * sub64 W (v_leaves_buffer st)) mod 2 ^ 64 \<le> count
                 then ebind (nkeys st t)
                   (\<lambda>nk. ebind (assertion (nk < v_degree st))
                   (\<lambda>_. ebind (insert_child st t we)
                   (\<lambda>st1. Inr (st1, we + 1))))
                 else Inr (st, we))
             (\<lambda>(st1, we1). ebind (redistribute_bits st1 t wb we1 count)
             (\<lambda>st2. ebind (find_insert_point st2 t index)
             (\<lambda>(child_ix2, new_index2). Inr (st2, child_ix2, new_index2)))))
           else Inr (st, child_ix, new_index))
       (\<lambda>(st3, child_ix3, new_index3).
          ebind (add_sizes st3 t child_ix3 (v_degree st3) (index_mask st3))
       (\<lambda>st4. ebind (add_ranks st4 t child_ix3 (v_degree st4) (index_mask st4 * of_bool b))
       (\<lambda>st5. ebind (child st5 t child_ix3)
       (\<lambda>c5. ebind (leaf st5 c5)
       (\<lambda>w. ebind (set_leaf st5 c5 (insert_bit w new_index3 b))
       (\<lambda>st6. Inr (st6\<lparr>v_size := v_size st6 + 1, v_rank := v_rank st6 + of_bool b\<rparr>))))))))"

text \<open>
  The branch of \<open>insert\<close> for a higher node, up to the recursive call: the split and the
  redistribution when the child is full, and the update of the counters. It gives the
  child to continue in and the index inside it.
\<close>

definition insert_into_node ::
  "bitvector \<Rightarrow> subtree_ref \<Rightarrow> nat \<Rightarrow> bool \<Rightarrow> nat \<Rightarrow> nat \<Rightarrow> error + bitvector \<times> nat \<times> nat" where
  "insert_into_node st t index b child_ix new_index =
     ebind (child st t child_ix)
       (\<lambda>c. ebind (nkeys st c)
       (\<lambda>nkc. ebind
          (if nkc = v_degree st
           then ebind (find_adjacent_children st t child_ix)
             (\<lambda>(wb, we, count). ebind (nkeys st t)
             (\<lambda>nk. ebind (assertion (nk < v_degree st))
             (\<lambda>_. ebind (insert_child st t we)
             (\<lambda>st1. ebind (redistribute_keys st1 t wb (we + 1) count)
             (\<lambda>st2. ebind (find_insert_point st2 t index)
             (\<lambda>(child_ix2, new_index2). Inr (st2, child_ix2, new_index2)))))))
           else Inr (st, child_ix, new_index))
       (\<lambda>(st3, child_ix3, new_index3).
          ebind (add_sizes st3 t child_ix3 (v_degree st3) (index_mask st3))
       (\<lambda>st4. ebind (add_ranks st4 t child_ix3 (v_degree st4) (index_mask st4 * of_bool b))
       (\<lambda>st5. Inr (st5, child_ix3, new_index3))))))"

subsection \<open>What the operations leave unchanged\<close>

text \<open>
  \<open>shape st\<close>: the parameters of the vector, its height, size and rank, and the length, field
  width and field mask of its three arrays. \<open>frame st st'\<close>: the shape is the same in \<open>st'\<close>
  as in \<open>st\<close>; nodes and leaves may have been allocated.
\<close>

definition pv_shape :: "packed_view \<Rightarrow> nat \<times> nat \<times> word_t" where
  "pv_shape v = (length (pv_bits v), pv_width v, pv_field_mask v)"

definition shape ::
  "bitvector \<Rightarrow> (nat \<times> nat \<times> nat \<times> nat) \<times> (nat \<times> nat \<times> nat \<times> nat \<times> nat) \<times>
     (nat \<times> nat \<times> word_t) \<times> (nat \<times> nat \<times> word_t) \<times> (nat \<times> nat \<times> word_t)" where
  "shape st =
     ((v_capacity st, v_height st, v_size st, v_rank st),
      (v_counter_width st, v_pointer_width st, v_degree st, v_leaves_buffer st,
       v_nodes_buffer st),
      pv_shape (v_sizes st), pv_shape (v_ranks st), pv_shape (v_pointers st))"

definition frame :: "bitvector \<Rightarrow> bitvector \<Rightarrow> bool" where
  "frame st st' \<longleftrightarrow>
     shape st' = shape st \<and> v_free_node st \<le> v_free_node st' \<and>
     length (v_leaves st) \<le> length (v_leaves st')"

lemma length_bv_set [simp]: "length (bv_set bs b e v) = length bs"
  by (simp add: bv_set_def)

lemma pv_size_shape: "pv_shape v' = pv_shape v \<Longrightarrow> pv_size v' = pv_size v"
  by (simp add: pv_shape_def pv_size_def)

lemma ebind_Inr [simp]: "ebind (Inr x) f = f x"
  by (simp add: ebind_def)

lemma ebind_Inl [simp]: "ebind (Inl e) f = Inl e"
  by (simp add: ebind_def)

lemma ebind_eq_Inr: "ebind m f = Inr y \<longleftrightarrow> (\<exists>x. m = Inr x \<and> f x = Inr y)"
  by (cases m) simp_all

lemma assertion_eq_Inr [simp]: "assertion c = Inr u \<longleftrightarrow> c"
  by (simp add: assertion_def)

lemma length_bv_copy [simp]: "length (bv_copy dst src sb se db) = length dst"
  by (auto simp: bv_copy_def min_def)

lemma pv_shape_pv_set [simp]: "pv_shape (pv_set v b e x) = pv_shape v"
  by (simp add: pv_shape_def pv_set_def)

lemma pv_shape_pv_add [simp]: "pv_shape (pv_add v b e x) = pv_shape v"
  by (simp add: pv_add_def)

lemma pv_shape_pv_shl [simp]: "pv_shape (pv_shl v b e n) = pv_shape v"
  by (simp add: pv_shl_def)

lemma pv_shape_pv_copy [simp]: "pv_shape (pv_copy v db src sb se) = pv_shape v"
  by (simp add: pv_shape_def pv_copy_def)

lemma frame_refl [simp]: "frame st st"
  by (simp add: frame_def)

lemma frame_trans: "frame a b \<Longrightarrow> frame b c \<Longrightarrow> frame a c"
  unfolding frame_def by auto

lemma frame_set_sizes: "set_sizes st t b e x = Inr st' \<Longrightarrow> frame st st'"
  by (auto simp: set_sizes_def ebind_eq_Inr frame_def shape_def)

lemma frame_set_ranks: "set_ranks st t b e x = Inr st' \<Longrightarrow> frame st st'"
  by (auto simp: set_ranks_def ebind_eq_Inr frame_def shape_def)

lemma frame_set_pointers: "set_pointers st t b e x = Inr st' \<Longrightarrow> frame st st'"
  by (auto simp: set_pointers_def ebind_eq_Inr frame_def shape_def)

lemma frame_add_sizes: "add_sizes st t b e x = Inr st' \<Longrightarrow> frame st st'"
  by (auto simp: add_sizes_def ebind_eq_Inr frame_def shape_def)

lemma frame_add_ranks: "add_ranks st t b e x = Inr st' \<Longrightarrow> frame st st'"
  by (auto simp: add_ranks_def ebind_eq_Inr frame_def shape_def)

lemma frame_shl_sizes: "shl_sizes st t b e n = Inr st' \<Longrightarrow> frame st st'"
  by (auto simp: shl_sizes_def ebind_eq_Inr frame_def shape_def)

lemma frame_shl_ranks: "shl_ranks st t b e n = Inr st' \<Longrightarrow> frame st st'"
  by (auto simp: shl_ranks_def ebind_eq_Inr frame_def shape_def)

lemma frame_shl_pointers: "shl_pointers st t b e n = Inr st' \<Longrightarrow> frame st st'"
  by (auto simp: shl_pointers_def ebind_eq_Inr frame_def shape_def)

lemma frame_set_leaf: "set_leaf st t x = Inr st' \<Longrightarrow> frame st st'"
  by (auto simp: set_leaf_def ebind_eq_Inr frame_def shape_def split: if_splits)

lemma frame_alloc_leaf: "alloc_leaf st = (st', i) \<Longrightarrow> frame st st'"
  by (auto simp: alloc_leaf_def frame_def shape_def)

lemma frame_alloc_node: "alloc_node st = Inr (st', i) \<Longrightarrow> frame st st'"
  by (auto simp: alloc_node_def ebind_eq_Inr frame_def shape_def)

lemma frame_clear_keys: "clear_keys st t b e = Inr st' \<Longrightarrow> frame st st'"
  by (auto simp: clear_keys_def ebind_eq_Inr dest!: frame_set_sizes frame_set_ranks)
    (auto simp: frame_def)

lemma frame_insert_child: "insert_child st t k = Inr st' \<Longrightarrow> frame st st'"
  unfolding insert_child_def
  by (auto simp: ebind_eq_Inr split: if_splits
      dest!: frame_shl_sizes frame_shl_ranks frame_shl_pointers frame_set_sizes frame_set_ranks
        frame_set_pointers frame_alloc_leaf frame_alloc_node)
    (auto simp: frame_def)


lemma frame_copy: "copy st t = Inr (st', r) \<Longrightarrow> frame st st'"
  unfolding copy_def
  by (auto simp: ebind_eq_Inr Let_def split: if_splits prod.splits
      dest!: frame_alloc_leaf frame_alloc_node frame_set_leaf)
    (auto simp: frame_def shape_def)

lemma frame_scatter_bits:
  "scatter_bits t view bpl is st rem p popcnt count = Inr (st', c) \<Longrightarrow> frame st st'"
proof (induction "is" arbitrary: st rem p popcnt count)
  case Nil
  then show ?case by simp
next
  case (Cons i "is")
  from Cons.prems show ?case
    by (auto simp: Let_def ebind_eq_Inr split: sum.splits if_splits
        dest!: frame_insert_child frame_set_leaf frame_add_sizes frame_add_ranks Cons.IH)
      (auto simp: frame_def)
qed

lemma frame_redistribute_bits: "redistribute_bits st t b e count = Inr st' \<Longrightarrow> frame st st'"
  unfolding redistribute_bits_def
  by (auto simp: Let_def ebind_eq_Inr split: if_splits
      dest!: frame_set_sizes frame_set_ranks frame_clear_keys frame_scatter_bits)
    (auto simp: frame_def)

lemma frame_set_keys: "set_keys t i keys p js st = Inr st' \<Longrightarrow> frame st st'"
proof (induction js arbitrary: st)
  case Nil
  then show ?case by simp
next
  case (Cons j js)
  from Cons.prems show ?case
    by (auto simp: ebind_eq_Inr split: sum.splits if_splits prod.splits
        dest!: frame_set_pointers frame_add_sizes frame_add_ranks Cons.IH)
      (auto simp: frame_def)
qed

lemma frame_distribute_keys:
  "distribute_keys t keys kpn is st rem p count = Inr (st', c) \<Longrightarrow> frame st st'"
proof (induction "is" arbitrary: st rem p count)
  case Nil
  then show ?case by simp
next
  case (Cons i "is")
  from Cons.prems show ?case
    by (auto simp: Let_def ebind_eq_Inr split: sum.splits if_splits
        dest!: frame_set_sizes frame_set_ranks frame_set_keys Cons.IH)
      (auto simp: frame_def)
qed

lemma frame_redistribute_keys: "redistribute_keys st t b e count = Inr st' \<Longrightarrow> frame st st'"
  unfolding redistribute_keys_def
  by (auto simp: Let_def ebind_eq_Inr split: if_splits dest!: frame_distribute_keys)

lemma frame_insert_into_node:
  "insert_into_node st t index b child_ix new_index = Inr (st', c, n) \<Longrightarrow> frame st st'"
  unfolding insert_into_node_def
  by (auto simp: ebind_eq_Inr split: if_splits
      dest!: frame_insert_child frame_redistribute_keys frame_add_sizes frame_add_ranks)
    (auto simp: frame_def)

lemma copy_node:
  assumes "copy st t = Inr (st1, r)" "is_node t"
  shows "v_free_node st < pv_size (v_sizes st) \<and> v_free_node st1 = v_free_node st + 1 \<and>
         t_index r = v_free_node st \<and> shape st1 = shape st \<and>
         length (v_leaves st1) = length (v_leaves st)"
  using assms unfolding copy_def
  by (auto simp: ebind_eq_Inr Let_def alloc_node_def shape_def split: prod.splits)

lemma set_sizes_is_node: "set_sizes st t b e x = Inr st' \<Longrightarrow> is_node t"
  by (auto simp: set_sizes_def sizes_range_def ebind_eq_Inr)

lemma shape_set_sizes:
  "set_sizes st t b e x = Inr st' \<Longrightarrow>
   shape st' = shape st \<and> v_free_node st' = v_free_node st \<and> v_leaves st' = v_leaves st"
  by (auto simp: set_sizes_def ebind_eq_Inr shape_def)

lemma shape_set_ranks:
  "set_ranks st t b e x = Inr st' \<Longrightarrow>
   shape st' = shape st \<and> v_free_node st' = v_free_node st \<and> v_leaves st' = v_leaves st"
  by (auto simp: set_ranks_def ebind_eq_Inr shape_def)

lemma shape_set_pointers:
  "set_pointers st t b e x = Inr st' \<Longrightarrow>
   shape st' = shape st \<and> v_free_node st' = v_free_node st \<and> v_leaves st' = v_leaves st"
  by (auto simp: set_pointers_def ebind_eq_Inr shape_def)

lemma root_split_shape:
  assumes "root_split st t = Inr st'"
  shows "shape (st'\<lparr>v_height := v_height st\<rparr>) = shape st \<and>
         v_height st' = v_height st + 1 \<and>
         v_free_node st < pv_size (v_sizes st) \<and> v_free_node st' = v_free_node st + 1 \<and>
         length (v_leaves st') = length (v_leaves st)"
proof -
  from assms obtain st1 old_root st2 st3 st4 st5 where
    c: "copy st t = Inr (st1, old_root)" and
    s2: "set_sizes st1 t 0 (v_degree st1) (index_mask st1 * of_nat (t_size t)) = Inr st2" and
    s3: "set_ranks st2 t 0 (v_degree st2) (index_mask st2 * of_nat (t_rank t)) = Inr st3" and
    s4: "set_pointers st3 t 0 (v_degree st3 + 1) 0 = Inr st4" and
    s5: "set_pointers st4 t 0 1 (of_nat (t_index old_root)) = Inr st5" and
    s6: "st' = st5\<lparr>v_height := v_height st5 + 1\<rparr>"
    unfolding root_split_def by (auto simp: ebind_eq_Inr Let_def)
  have n: "is_node t" using s2 by (rule set_sizes_is_node)
  note c1 = copy_node [OF c n]
  note f2 = shape_set_sizes [OF s2]
  note f3 = shape_set_ranks [OF s3]
  note f4 = shape_set_pointers [OF s4]
  note f5 = shape_set_pointers [OF s5]
  have sh: "shape st5 = shape st" using c1 f2 f3 f4 f5 by simp
  have fn: "v_free_node st5 = v_free_node st + 1" using c1 f2 f3 f4 f5 by simp
  have lv: "length (v_leaves st5) = length (v_leaves st)" using c1 f2 f3 f4 f5 by simp
  have h: "v_height st5 = v_height st" using sh by (simp add: shape_def)
  have "shape (st'\<lparr>v_height := v_height st\<rparr>) = shape st5"
    unfolding s6 using h by (simp add: shape_def)
  then show ?thesis
    using sh fn lv h c1 by (simp add: s6)
qed

lemma sub64_eq: "b \<le> a \<Longrightarrow> a < 2 ^ 64 \<Longrightarrow> sub64 a b = a - b"
proof -
  assume a: "b \<le> a" "a < 2 ^ 64"
  have e1: "a + 2 ^ 64 - b = (a - b) + 2 ^ 64" using a(1) by simp
  have e2: "a - b < 2 ^ 64" using a(2) by simp
  show ?thesis unfolding sub64_def e1 using e2 by (simp only: mod_add_self2 mod_less)
qed

lemma sub64_less: "sub64 a b < 2 ^ 64"
  unfolding sub64_def by simp

lemma sub64_one_less: "0 < h \<Longrightarrow> sub64 h (Suc 0) < h"
proof (cases "h < 2 ^ 64")
  case True
  assume "0 < h"
  then show ?thesis using True sub64_eq [of "Suc 0" h] by simp
next
  case False
  then show ?thesis using sub64_less [of h "Suc 0"] by linarith
qed

lemma child_height:
  assumes "child st t k = Inr c"
  shows "is_node t \<and> t_height c = sub64 (t_height t) 1"
  using assms
  by (auto simp: child_def ebind_eq_Inr pointers_at_def pointers_range_def Let_def
      split: prod.splits)

text \<open>
  \<open>insert(t, index, bit)\<close>. A call either splits the root, which takes a fresh node, and
  starts again from the new root, or goes down to a child; so the pair of the number of
  nodes still free and the height of \<open>t\<close> decreases.
\<close>

function insert_subtree :: "bitvector \<Rightarrow> subtree_ref \<Rightarrow> nat \<Rightarrow> bool \<Rightarrow> error + bitvector" where
  "insert_subtree st t index b =
     (case nkeys st t of
        Inl e \<Rightarrow> Inl e
      | Inr nk \<Rightarrow>
         if nk = v_degree st
         then (case root_split st t of
                 Inl e \<Rightarrow> Inl e
               | Inr st1 \<Rightarrow> insert_subtree st1 (root st1) index b)
         else (case find_insert_point st t index of
                 Inl e \<Rightarrow> Inl e
               | Inr (child_ix, new_index) \<Rightarrow>
                  if t_height t = 1
                  then insert_into_leaf st t index b child_ix new_index
                  else (case insert_into_node st t index b child_ix new_index of
                          Inl e \<Rightarrow> Inl e
                        | Inr (st1, child_ix1, new_index1) \<Rightarrow>
                           (case child st1 t child_ix1 of
                              Inl e \<Rightarrow> Inl e
                            | Inr c \<Rightarrow> insert_subtree st1 c new_index1 b))))"
  by pat_completeness auto
termination
proof (relation "measures [\<lambda>(st, t, index, b). pv_size (v_sizes st) - v_free_node st,
                           \<lambda>(st, t, index, b). t_height t]")
  show "wf (measures [\<lambda>(st, t, index, b). pv_size (v_sizes st) - v_free_node st,
                      \<lambda>(st, t, index, b). t_height t])"
    by simp
next
  fix st :: bitvector and t :: subtree_ref and index :: nat and b :: bool and nk st1
  assume "root_split st t = Inr st1"
  from root_split_shape [OF this]
  have "pv_shape (v_sizes st1) = pv_shape (v_sizes st)"
    "v_free_node st < pv_size (v_sizes st)" "v_free_node st1 = v_free_node st + 1"
    by (simp_all add: shape_def)
  then have "pv_size (v_sizes st1) - v_free_node st1 < pv_size (v_sizes st) - v_free_node st"
    using pv_size_shape [of "v_sizes st1" "v_sizes st"] by simp
  then show "((st1, root st1, index, b), (st, t, index, b)) \<in>
      measures [\<lambda>(st, t, index, b). pv_size (v_sizes st) - v_free_node st,
                \<lambda>(st, t, index, b). t_height t]"
    by simp
next
  fix st :: bitvector and t :: subtree_ref and index :: nat and b :: bool
    and x y :: nat and r st1 ya child_ix1 new_index1 c
  assume n: "insert_into_node st t index b x y = Inr r"
    and x: "(st1, ya) = r" "(child_ix1, new_index1) = ya"
    and c: "child st1 t child_ix1 = Inr c"
  have "insert_into_node st t index b x y = Inr (st1, child_ix1, new_index1)"
    using n x by simp
  then have f: "frame st st1" by (rule frame_insert_into_node)
  then have "pv_size (v_sizes st1) = pv_size (v_sizes st)"
    by (intro pv_size_shape) (simp add: frame_def shape_def)
  moreover have "v_free_node st \<le> v_free_node st1" using f by (simp add: frame_def)
  ultimately have
    "pv_size (v_sizes st1) - v_free_node st1 \<le> pv_size (v_sizes st) - v_free_node st"
    by simp
  moreover have "t_height c < t_height t"
    using child_height [OF c] sub64_one_less [of "t_height t"] by (simp add: is_node_def)
  ultimately show "((st1, c, new_index1, b), (st, t, index, b)) \<in>
      measures [\<lambda>(st, t, index, b). pv_size (v_sizes st) - v_free_node st,
                \<lambda>(st, t, index, b). t_height t]"
    by auto
qed

declare insert_subtree.simps [simp del]

text \<open>The public \<open>access(index)\<close> and \<open>insert(index, bit)\<close> start from the root.\<close>

definition access_at :: "bitvector \<Rightarrow> nat \<Rightarrow> error + bool" where
  "access_at st index = access st (root st) index"

definition insert_at :: "bitvector \<Rightarrow> nat \<Rightarrow> bool \<Rightarrow> error + bitvector" where
  "insert_at st index b = insert_subtree st (root st) index b"

subsection \<open>Construction\<close>

text \<open>
  The constructor computes its parameters in floating point: \<open>ceil(log2(n))\<close> and
  \<open>ceil(sqrt(n))\<close> of a positive integer, and \<open>ceil\<close> of a quotient of integers. The model
  takes their exact values.
\<close>

function clog2 :: "nat \<Rightarrow> nat" where
  "clog2 n = (if n \<le> 1 then 0 else Suc (clog2 ((n + 1) div 2)))"
  by pat_completeness auto
termination
  by (relation "measure id") auto

declare clog2.simps [simp del]

function csqrt_from :: "nat \<Rightarrow> nat \<Rightarrow> nat" where
  "csqrt_from k n = (if n \<le> k * k then k else csqrt_from (k + 1) n)"
  by pat_completeness auto
termination
proof (relation "measure (\<lambda>(k, n). n - k)")
  show "wf (measure (\<lambda>(k, n). n - k))" by simp
next
  fix k n :: nat
  assume "\<not> n \<le> k * k"
  then have "k * k < n" by simp
  moreover have "k \<le> k * k" by (cases k) simp_all
  ultimately have "k < n" by linarith
  then show "((k + 1, n), (k, n)) \<in> measure (\<lambda>(k, n). n - k)" by simp
qed

declare csqrt_from.simps [simp del]

definition csqrt :: "nat \<Rightarrow> nat" where
  "csqrt n = csqrt_from 0 n"

text \<open>
  The loop that counts the internal nodes level by level. With a minimum degree of zero
  a level of more than one node never shrinks and the loop does not end: \<open>None\<close>.
\<close>

partial_function (option) count_nodes :: "nat \<Rightarrow> nat \<Rightarrow> nat \<Rightarrow> nat option" where
  "count_nodes minimum_degree level_count nodes_count =
     (let level_count' = (level_count + minimum_degree) div (minimum_degree + 1);
          nodes_count' = nodes_count + level_count'
      in if 1 < level_count'
         then count_nodes minimum_degree level_count' nodes_count'
         else Some nodes_count')"

declare count_nodes.simps [code]

definition new_bitvector :: "nat \<Rightarrow> (error + bitvector) option" where
  "new_bitvector capacity =
     (let counter_width = clog2 capacity + 1;
          degree = W div counter_width;
          leaves_buffer = min (max (csqrt W - 1) 1) degree;
          nodes_buffer = max (csqrt degree - 1) 1
      in if leaves_buffer * (W - leaves_buffer) = 0 then Some (Inl Undefined)
         else
          (let leaves_count = capacity * (leaves_buffer + 1) div (leaves_buffer * (W - leaves_buffer));
               minimum_degree = (nodes_buffer * sub64 degree nodes_buffer) mod 2 ^ 64
                                  div (nodes_buffer + 1)
           in map_option
                (\<lambda>nodes_count.
                   let pointer_width = clog2 (max nodes_count (leaves_count + 1))
                   in ebind (assertion (pointer_width \<le> counter_width))
                     (\<lambda>_. ebind (assertion (pointer_width * (degree + 1) \<le> W))
                     (\<lambda>_. let st0 =
                              \<lparr>v_capacity = capacity, v_size = 0, v_rank = 0, v_height = 1,
                               v_counter_width = counter_width, v_pointer_width = pointer_width,
                               v_degree = degree, v_leaves_buffer = leaves_buffer,
                               v_nodes_buffer = nodes_buffer, v_free_node = 0,
                               v_sizes = new_packed_view counter_width (nodes_count * degree),
                               v_ranks = new_packed_view counter_width (nodes_count * degree),
                               v_pointers =
                                 new_packed_view pointer_width (nodes_count * (degree + 1)),
                               v_leaves = []\<rparr>;
                              st1 = fst (alloc_leaf st0)
                          in ebind (alloc_node st1)
                     (\<lambda>(st2, _). insert_child st2 (root st2) 0))))
                (count_nodes minimum_degree leaves_count 0)))"

section \<open>Properties of the bit view and the packed view\<close>

lemma W_eq: "W = 64"
  by (simp add: W_def)

lemma bit_bv_get:
  "bit (bv_get bs b e) j \<longleftrightarrow> j < 64 \<and> j < e - b \<and> b + j < length bs \<and> bs ! (b + j)"
  by (auto simp: bv_get_def bit_horner_sum_bit_word_iff)

lemma nth_bv_set:
  "i < length bs \<Longrightarrow>
   bv_set bs b e v ! i =
     (if b \<le> e \<and> e \<le> length bs \<and> b \<le> i \<and> i < e then bit v (i - b) else bs ! i)"
  by (auto simp: bv_set_def nth_append)

lemma push_or_one: "0 < w \<Longrightarrow> push_bit w (m::word_t) OR 1 = push_bit w m + 1"
  by (rule disjunctive_add [symmetric]) (auto simp: bit_push_bit_iff bit_1_iff)

lemma field_mask_loop_times:
  "0 < w \<Longrightarrow>
   field_mask_loop n w m * v = push_bit (n * w) (m * v) + (\<Sum>k<n. push_bit (k * w) v)"
proof (induction n arbitrary: m)
  case 0
  then show ?case by simp
next
  case (Suc n)
  have "field_mask_loop (Suc n) w m * v = field_mask_loop n w (push_bit w m + 1) * v"
    using Suc.prems by (simp add: push_or_one)
  also have "\<dots> = push_bit (n * w) ((push_bit w m + 1) * v) + (\<Sum>k<n. push_bit (k * w) v)"
    using Suc.prems by (rule Suc.IH)
  also have "\<dots> = push_bit (Suc n * w) (m * v) + (\<Sum>k<Suc n. push_bit (k * w) v)"
    by (simp add: push_bit_eq_mult power_add algebra_simps)
  finally show ?case .
qed

lemma bit_spread:
  "0 < w \<Longrightarrow>
   bit (\<Sum>k<n. push_bit (k * w) (take_bit w (x::word_t))) j \<longleftrightarrow>
     j < 64 \<and> j < n * w \<and> bit x (j mod w)"
proof (induction n arbitrary: j)
  case 0
  then show ?case by simp
next
  case (Suc n)
  have disj: "\<not> bit (\<Sum>k<n. push_bit (k * w) (take_bit w x)) i \<or>
      \<not> bit (push_bit (n * w) (take_bit w x)) i" for i
    using Suc.prems by (auto simp: Suc.IH bit_push_bit_iff)
  have m: "n * w \<le> j \<Longrightarrow> j < n * w + w \<Longrightarrow> j mod w = j - n * w"
    by (metis add.commute le_add_diff_inverse2 mod_less mod_mult_self1 nat_add_left_cancel_less)
  have m2: "j < n * w + w \<Longrightarrow> \<not> j < n * w \<Longrightarrow> j - n * w < w" by arith
  show ?case
    using Suc.prems m m2
    by (auto simp: bit_disjunctive_add_iff [OF disj] Suc.IH bit_push_bit_iff bit_take_bit_iff
         dest: bit_imp_le_length)
qed

lemma bit_field_mask_times:
  assumes "0 < w"
  shows "bit (compute_field_mask w * lowbits x w) j \<longleftrightarrow>
     j < 64 \<and> j < (W div w) * w \<and> bit x (j mod w)"
  using assms
  by (simp add: compute_field_mask_def field_mask_loop_times lowbits_def bit_spread)


lemma repeat_loop_correct:
  assumes "0 < bpw" "endbit \<le> length bs" "p \<le> endbit" "len = endbit - p" "len mod bpw = rem"
  shows "\<exists>bs'. repeat_loop bpw rem endbit val len p bs = Some bs' \<and> length bs' = length bs \<and>
           (\<forall>i<length bs. bs' ! i =
              (if p \<le> i \<and> i < endbit then bit val ((i - p) mod bpw) else bs ! i))"
  using assms
proof (induction len arbitrary: p bs rule: less_induct)
  case (less len)
  show ?case
  proof (cases "p < endbit")
    case False
    then show ?thesis
      using less.prems by (subst repeat_loop.simps) auto
  next
    case True
    show ?thesis
    proof (cases "len < bpw")
      case small: True
      then have r: "rem = len" using less.prems by simp
      have e: "p + len = endbit" using less.prems by simp
      have "repeat_loop bpw rem endbit val len p bs = Some (bv_set bs p endbit val)"
        using True small r e
        by (subst repeat_loop.simps, simp, subst repeat_loop.simps, simp)
      moreover have "\<forall>i<length bs. bv_set bs p endbit val ! i =
              (if p \<le> i \<and> i < endbit then bit val ((i - p) mod bpw) else bs ! i)"
        using less.prems small by (auto simp: nth_bv_set)
      ultimately show ?thesis by simp
    next
      case big: False
      define p' where "p' = p + bpw"
      define bs1 where "bs1 = bv_set bs p p' val"
      have st: "repeat_loop bpw rem endbit val len p bs =
                repeat_loop bpw rem endbit val (len - bpw) p' bs1"
        using True big by (subst repeat_loop.simps) (simp add: p'_def bs1_def)
      have p'le: "p' \<le> endbit" using big less.prems by (simp add: p'_def)
      have a1: "len - bpw < len" using big less.prems(1) by simp
      have a2: "endbit \<le> length bs1" using less.prems by (simp add: bs1_def)
      have a3: "len - bpw = endbit - p'" using less.prems by (simp add: p'_def)
      have a4: "(len - bpw) mod bpw = rem"
        using big less.prems by (simp add: le_mod_geq)
      obtain bs' where
        r: "repeat_loop bpw rem endbit val (len - bpw) p' bs1 = Some bs'" and
        l: "length bs' = length bs1" and
        n: "\<forall>i<length bs1. bs' ! i =
              (if p' \<le> i \<and> i < endbit then bit val ((i - p') mod bpw) else bs1 ! i)"
        using less.IH [OF a1 less.prems(1) a2 p'le a3 a4] by blast
      have "bs' ! i = (if p \<le> i \<and> i < endbit then bit val ((i - p) mod bpw) else bs ! i)"
        if "i < length bs" for i
      proof (cases "p' \<le> i")
        case True
        then have "(i - p) mod bpw = (i - p') mod bpw"
          by (simp add: p'_def le_mod_geq)
        then show ?thesis using n that True by (auto simp: bs1_def p'_def nth_bv_set)
      next
        case False
        then show ?thesis
          using n that p'le less.prems by (auto simp: bs1_def nth_bv_set p'_def)
      qed
      then show ?thesis using st r l by (simp add: bs1_def)
    qed
  qed
qed


text \<open>
  Claim C9. For a packed view of field width \<open>w\<close> (\<open>1 \<le> w < W\<close>, its field mask the one
  its constructor computes) and any \<open>n\<close> up to its field count, \<open>repeat(0, n, x)\<close> returns,
  and afterwards every field read \<open>get(i)\<close> with \<open>i < n\<close> yields \<open>lowbits(x, w)\<close>; the
  width and the field count of the view are unchanged.
\<close>

theorem repeat_then_get:
  assumes w: "0 < pv_width v" "pv_width v < W"
    and fm: "pv_field_mask v = compute_field_mask (pv_width v)"
    and n: "n \<le> pv_size v"
  shows "\<exists>v'. pv_repeat v 0 n x = Some v' \<and> pv_width v' = pv_width v \<and>
           pv_size v' = pv_size v \<and>
           (\<forall>i<n. pv_get v' i (i + 1) = lowbits x (pv_width v))"
proof -
  define w where "w = pv_width v"
  define bpw where "bpw = (W div w) * w"
  define val where "val = field_mask v * lowbits x w"
  have w0: "0 < w" and w64: "w < 64" using w by (simp_all add: w_def W_def)
  have fpw: "0 < W div w" using w0 w64 by (simp add: W_def div_greater_zero_iff)
  have bpw0: "0 < bpw" using fpw w0 by (simp add: bpw_def)
  have bpw64: "bpw \<le> 64" by (simp add: bpw_def W_def)
  have nw: "n * w \<le> length (pv_bits v)"
  proof -
    have "n * w \<le> (length (pv_bits v) div w) * w"
      using n by (simp add: pv_size_def w_def)
    also have "\<dots> \<le> length (pv_bits v)" by simp
    finally show ?thesis .
  qed
  obtain bs' where
    r: "repeat_loop bpw ((n * w) mod bpw) (n * w) val (n * w) 0 (pv_bits v) = Some bs'" and
    l: "length bs' = length (pv_bits v)" and
    b: "\<forall>i<length (pv_bits v). bs' ! i =
          (if 0 \<le> i \<and> i < n * w then bit val ((i - 0) mod bpw) else pv_bits v ! i)"
    using repeat_loop_correct [OF bpw0 nw, of 0 "n * w" "(n * w) mod bpw" val] by auto
  have rep: "pv_repeat v 0 n x = Some (v\<lparr>pv_bits := bs'\<rparr>)"
    using r by (simp add: pv_repeat_def Let_def w_def bpw_def val_def)
  have "pv_get (v\<lparr>pv_bits := bs'\<rparr>) i (i + 1) = lowbits x w" if i: "i < n" for i
  proof (rule bit_word_eqI)
    fix j :: nat
    assume "j < LENGTH(64)"
    then have j64: "j < 64" by simp
    show "bit (pv_get (v\<lparr>pv_bits := bs'\<rparr>) i (i + 1)) j = bit (lowbits x w) j"
    proof (cases "j < w")
      case False
      then show ?thesis
        by (simp add: pv_get_def bit_bv_get lowbits_def bit_take_bit_iff w_def)
    next
      case True
      have "i * w + j < (i + 1) * w" using True by simp
      also have "\<dots> \<le> n * w" using i by (intro mult_le_mono1) simp
      finally have lt: "i * w + j < n * w" .
      then have lt': "i * w + j < length (pv_bits v)" using nw by simp
      have k: "(i * w + j) mod bpw < bpw" using bpw0 by simp
      have km: "((i * w + j) mod bpw) mod w = j"
        using True by (simp add: bpw_def mod_mod_cancel)
      have "bs' ! (i * w + j) = bit val ((i * w + j) mod bpw)"
        using b lt lt' by simp
      also have "\<dots> = bit x j"
        using w0 k bpw64 km
        by (simp add: val_def field_mask_def fm w_def [symmetric] bit_field_mask_times bpw_def [symmetric])
      finally show ?thesis
        using True j64 lt' l
        by (simp add: pv_get_def bit_bv_get lowbits_def bit_take_bit_iff w_def [symmetric])
    qed
  qed
  then show ?thesis
    using rep l by (simp add: w_def pv_size_def)
qed

theorem repeat_then_get_witness:
  "(0::nat) < 11 \<and> (\<exists>v'. pv_repeat (new_packed_view 11 7) 0 7 5 = Some v' \<and>
      pv_get v' 6 7 = lowbits 5 11)"
proof -
  have a: "0 < pv_width (new_packed_view 11 7)" "pv_width (new_packed_view 11 7) < W"
    "pv_field_mask (new_packed_view 11 7) = compute_field_mask (pv_width (new_packed_view 11 7))"
    "7 \<le> pv_size (new_packed_view 11 7)"
    by (simp_all add: new_packed_view_def W_def pv_size_def)
  obtain v' where r: "pv_repeat (new_packed_view 11 7) 0 7 5 = Some v'"
    and g: "\<forall>i<7. pv_get v' i (i + 1) = lowbits 5 (pv_width (new_packed_view 11 7))"
    using repeat_then_get [OF a, of 5] by blast
  have "pv_get v' 6 7 = lowbits 5 11"
    using g [rule_format, of 6] by (simp add: new_packed_view_def)
  then show ?thesis using r by simp
qed


lemma swar_sub_nat:
  fixes X V :: nat
  assumes "\<forall>k<n. (V div 2 ^ (k * w)) mod 2 ^ w \<le> (X div 2 ^ (k * w)) mod 2 ^ w"
    and "V < 2 ^ (n * w)"
  shows "V \<le> X \<and> (\<forall>k<n. ((X - V) div 2 ^ (k * w)) mod 2 ^ w =
           (X div 2 ^ (k * w)) mod 2 ^ w - (V div 2 ^ (k * w)) mod 2 ^ w)"
  using assms
proof (induction n arbitrary: X V)
  case 0
  then show ?case by simp
next
  case (Suc n)
  define X' where "X' = X div 2 ^ w"
  define V' where "V' = V div 2 ^ w"
  define X0 where "X0 = X mod 2 ^ w"
  define V0 where "V0 = V mod 2 ^ w"
  have X: "X = X0 + 2 ^ w * X'" and V: "V = V0 + 2 ^ w * V'"
    by (simp_all add: X0_def X'_def V0_def V'_def)
  have d: "(Y div 2 ^ (Suc k * w)) = (Y div 2 ^ w) div 2 ^ (k * w)" for Y k :: nat
    by (simp add: power_add div_mult2_eq)
  have le0: "V0 \<le> X0"
    using Suc.prems(1) [rule_format, of 0] by (simp add: X0_def V0_def)
  have h1: "\<forall>k<n. (V' div 2 ^ (k * w)) mod 2 ^ w \<le> (X' div 2 ^ (k * w)) mod 2 ^ w"
  proof (intro allI impI)
    fix k assume "k < n"
    then show "(V' div 2 ^ (k * w)) mod 2 ^ w \<le> (X' div 2 ^ (k * w)) mod 2 ^ w"
      using Suc.prems(1) [rule_format, of "Suc k"] by (simp only: d X'_def V'_def)
  qed
  have h2: "V' < 2 ^ (n * w)"
    using Suc.prems(2) by (simp add: V'_def power_add less_mult_imp_div_less mult.commute)
  have IH: "V' \<le> X'" "\<forall>k<n. ((X' - V') div 2 ^ (k * w)) mod 2 ^ w =
           (X' div 2 ^ (k * w)) mod 2 ^ w - (V' div 2 ^ (k * w)) mod 2 ^ w"
    using Suc.IH [OF h1 h2] by simp_all
  have lt0: "X0 - V0 < 2 ^ w" by (simp add: X0_def less_imp_diff_less)
  have sub: "X - V = (X0 - V0) + 2 ^ w * (X' - V')"
    using le0 IH(1) by (simp add: X V diff_mult_distrib2)
  have dv: "(X - V) div 2 ^ w = X' - V'" and md: "(X - V) mod 2 ^ w = X0 - V0"
    using lt0 by (simp_all add: sub)
  have "V \<le> X" using le0 IH(1) by (simp add: X V add_mono)
  moreover have "((X - V) div 2 ^ (k * w)) mod 2 ^ w =
           (X div 2 ^ (k * w)) mod 2 ^ w - (V div 2 ^ (k * w)) mod 2 ^ w" if "k < Suc n" for k
  proof (cases k)
    case 0
    then show ?thesis using md by (simp add: X0_def V0_def)
  next
    case (Suc k')
    then have "k' < n" using that by simp
    then show ?thesis
      using IH(2) by (simp only: Suc d dv) (simp add: X'_def V'_def)
  qed
  ultimately show ?case by blast
qed


lemma unat_digit:
  "unat (take_bit w (drop_bit m (Y::word_t))) = (unat Y div 2 ^ m) mod 2 ^ w"
proof -
  have "unat (take_bit w (drop_bit m Y)) = take_bit w (drop_bit m (unat Y))"
    by (simp only: unsigned_take_bit_eq unat_drop_bit_eq)
  then show ?thesis by (simp add: take_bit_eq_mod drop_bit_eq_div)
qed

lemma bit_compute_field_mask:
  assumes "0 < w"
  shows "bit (compute_field_mask w) j \<longleftrightarrow> j < 64 \<and> j < (W div w) * w \<and> j mod w = 0"
proof -
  have "lowbits 1 w = 1" using assms by (simp add: lowbits_def)
  then have "compute_field_mask w = compute_field_mask w * lowbits 1 w" by simp
  then have "bit (compute_field_mask w) j = bit (compute_field_mask w * lowbits 1 w) j" by simp
  then show ?thesis
    using assms by (simp add: bit_field_mask_times bit_1_iff del: mult_1_right)
qed

lemma digit_flag_mask:
  assumes "0 < w" "k < W div w" "pv_width v = w" "pv_field_mask v = compute_field_mask w"
  shows "take_bit w (drop_bit (k * w) (flag_mask v)) = push_bit (w - 1) 1"
proof (rule bit_word_eqI)
  fix j :: nat
  assume "j < LENGTH(64)"
  have kw: "k * w + w \<le> (W div w) * w"
    using assms(2) by (metis Suc_leI mult_Suc mult_le_mono1 add.commute)
  have le64: "(W div w) * w \<le> 64" by (simp add: W_def)
  have m: "(k * w + j - (w - 1)) mod w = 0 \<longleftrightarrow> j = w - 1" if "j < w" "w - 1 \<le> k * w + j"
  proof
    assume "j = w - 1" then show "(k * w + j - (w - 1)) mod w = 0" by simp
  next
    assume z: "(k * w + j - (w - 1)) mod w = 0"
    show "j = w - 1"
    proof (rule ccontr)
      assume "j \<noteq> w - 1"
      then have jl: "j < w - 1" using that by simp
      then have k0: "0 < k" using that by (cases k) auto
      have "k * w + j - (w - 1) = (k - 1) * w + (j + 1)"
        using k0 jl by (cases k) (auto simp: algebra_simps)
      then have "(k * w + j - (w - 1)) mod w = j + 1" using jl by simp
      then show False using z by simp
    qed
  qed
  show "bit (take_bit w (drop_bit (k * w) (flag_mask v))) j = bit (push_bit (w - 1) (1::word_t)) j"
  proof (cases "j < w")
    case False
    then show ?thesis using assms(1) by (auto simp: bit_take_bit_iff bit_push_bit_iff bit_1_iff bit_exp_iff)
  next
    case True
    have "k * w + j < 64" using kw le64 True by simp
    moreover have "k * w + j - (w - 1) < (W div w) * w" using kw True by simp
    ultimately show ?thesis
      using True assms m
      by (auto simp: bit_take_bit_iff bit_drop_bit_eq flag_mask_def bit_push_bit_iff
            bit_compute_field_mask bit_1_iff bit_exp_iff)
  qed
qed


lemma bit_field_mask_times_low:
  assumes "0 < w"
  shows "bit (compute_field_mask w * lowbits x (w - 1)) j \<longleftrightarrow>
     j < 64 \<and> j < (W div w) * w \<and> j mod w < w - 1 \<and> bit x (j mod w)"
proof -
  have l: "lowbits x (w - 1) = lowbits (take_bit (w - 1) x) w"
    using assms(1) by (cases w) (simp_all add: lowbits_def min_def)
  show ?thesis
    unfolding l using assms by (simp only: bit_field_mask_times bit_take_bit_iff)
qed

lemma digit_field_mask_times:
  assumes "0 < w" "k < W div w"
  shows "take_bit w (drop_bit (k * w) (compute_field_mask w * lowbits x (w - 1))) =
         lowbits x (w - 1)"
proof (rule bit_word_eqI)
  fix j :: nat
  assume "j < LENGTH(64)"
  have kw: "k * w + w \<le> (W div w) * w"
    using assms(2) by (metis Suc_leI mult_Suc mult_le_mono1 add.commute)
  have le64: "(W div w) * w \<le> 64" by (simp add: W_def)
  show "bit (take_bit w (drop_bit (k * w) (compute_field_mask w * lowbits x (w - 1)))) j =
        bit (lowbits x (w - 1)) j"
  proof (cases "j < w")
    case False
    then show ?thesis by (auto simp: bit_take_bit_iff lowbits_def)
  next
    case True
    have "k * w + j < 64" "k * w + j < (W div w) * w" using kw le64 True by simp_all
    then show ?thesis
      using True assms(1)
      by (simp add: bit_take_bit_iff bit_drop_bit_eq bit_field_mask_times_low
            del: One_nat_def)
        (simp add: lowbits_def bit_take_bit_iff)
  qed
qed

lemma field_mask_times_bound:
  assumes "0 < w"
  shows "unat (compute_field_mask w * lowbits x (w - 1)) < 2 ^ ((W div w) * w)"
proof -
  have "compute_field_mask w * lowbits x (w - 1) =
        take_bit ((W div w) * w) (compute_field_mask w * lowbits x (w - 1))"
    using assms
    by (intro bit_word_eqI)
      (auto simp: bit_take_bit_iff bit_field_mask_times_low simp del: One_nat_def)
  then have "unat (compute_field_mask w * lowbits x (w - 1)) =
      take_bit ((W div w) * w) (unat (compute_field_mask w * lowbits x (w - 1)))"
    by (metis unsigned_take_bit_eq)
  then show ?thesis by (metis take_bit_nat_less_exp)
qed

lemma digit_or_flag:
  assumes "0 < w" "w \<le> 64"
  shows "unat (take_bit w (A::word_t) OR push_bit (w - 1) 1) =
         2 ^ (w - 1) + unat (take_bit (w - 1) A)"
proof -
  have e: "take_bit w A OR push_bit (w - 1) 1 = push_bit (w - 1) 1 + take_bit (w - 1) A"
  proof -
    have "take_bit w A OR push_bit (w - 1) 1 = push_bit (w - 1) 1 OR take_bit (w - 1) A"
      using assms(1)
      by (intro bit_word_eqI)
        (auto simp: bit_or_iff bit_take_bit_iff bit_push_bit_iff bit_1_iff bit_exp_iff)
    also have "\<dots> = push_bit (w - 1) 1 + take_bit (w - 1) A"
      by (rule disjunctive_add [symmetric])
        (auto simp: bit_take_bit_iff bit_push_bit_iff bit_1_iff bit_exp_iff)
    finally show ?thesis .
  qed
  have b: "unat (take_bit (w - 1) A) < 2 ^ (w - 1)"
    by (simp add: unsigned_take_bit_eq)
  have p: "unat (push_bit (w - 1) (1::word_t)) = 2 ^ (w - 1)"
  proof -
    have "unat (push_bit (w - 1) (1::word_t)) = take_bit 64 (push_bit (w - 1) (1::nat))"
      by (simp only: unsigned_push_bit_eq) simp
    also have "\<dots> = 2 ^ (w - 1)"
      using assms by (simp add: take_bit_nat_eq_self_iff)
    finally show ?thesis .
  qed
  have "(2::nat) ^ (w - 1) + 2 ^ (w - 1) = 2 ^ w"
    using assms(1) by (cases w) simp_all
  moreover have "(2::nat) ^ w \<le> 2 ^ 64" using assms(2) by (intro power_increasing) simp_all
  ultimately have "unat (push_bit (w - 1) (1::word_t)) + unat (take_bit (w - 1) A) < 2 ^ 64"
    using b p by linarith
  then have "unat (push_bit (w - 1) (1::word_t) + take_bit (w - 1) A) =
        unat (push_bit (w - 1) (1::word_t)) + unat (take_bit (w - 1) A)"
    by (simp add: unat_add_lem [THEN iffD1])
  then show ?thesis using e p by simp
qed

lemma bit_top_of_digit:
  fixes U :: nat
  assumes "0 < w"
  shows "bit U (m + (w - 1)) \<longleftrightarrow> 2 ^ (w - 1) \<le> (U div 2 ^ m) mod 2 ^ w"
proof -
  define d where "d = (U div 2 ^ m) mod 2 ^ w"
  have dl: "d < 2 * 2 ^ (w - 1)"
    using assms by (cases w) (simp_all add: d_def)
  have "bit U (m + (w - 1)) = bit (take_bit w (drop_bit m U)) (w - 1)"
    using assms by (simp add: bit_take_bit_iff bit_drop_bit_eq)
  also have "\<dots> = bit d (w - 1)"
    by (simp add: d_def take_bit_eq_mod drop_bit_eq_div)
  also have "\<dots> = odd (d div 2 ^ (w - 1))" by (simp add: bit_nat_def)
  also have "\<dots> = (2 ^ (w - 1) \<le> d)"
  proof (cases "2 ^ (w - 1) \<le> d")
    case True
    then have "d div 2 ^ (w - 1) = 1"
      using dl by (intro div_nat_eqI) simp_all
    then show ?thesis using True by simp
  next
    case False
    then show ?thesis by simp
  qed
  finally show ?thesis by (simp add: d_def)
qed


lemma swar_flag_bit:
  assumes w: "0 < w" and k: "k < W div w" and pw: "pv_width v = w"
    and fm: "pv_field_mask v = compute_field_mask w"
  shows "bit ((G OR flag_mask v) - field_mask v * lowbits x (w - 1)) (k * w + (w - 1)) \<longleftrightarrow>
         unat (lowbits x (w - 1)) \<le> unat (take_bit (w - 1) (drop_bit (k * w) G))"
proof -
  define n where "n = W div w"
  define X where "X = G OR flag_mask v"
  define V where "V = compute_field_mask w * lowbits x (w - 1)"
  define vl where "vl = unat (lowbits x (w - 1))"
  define al where "al j = unat (take_bit (w - 1) (drop_bit (j * w) G))" for j
  have w64: "w \<le> 64"
  proof (rule ccontr)
    assume "\<not> w \<le> 64"
    then have "W div w = 0" by (simp add: W_def)
    then show False using k by simp
  qed
  have dX: "(unat X div 2 ^ (j * w)) mod 2 ^ w = 2 ^ (w - 1) + al j" if "j < n" for j
  proof -
    have "take_bit w (drop_bit (j * w) X) =
          take_bit w (drop_bit (j * w) G) OR take_bit w (drop_bit (j * w) (flag_mask v))"
      by (intro bit_word_eqI) (auto simp: X_def bit_take_bit_iff bit_drop_bit_eq bit_or_iff)
    also have "\<dots> = take_bit w (drop_bit (j * w) G) OR push_bit (w - 1) 1"
      using digit_flag_mask [OF w _ pw fm, of j] that by (simp add: n_def)
    finally have "unat (take_bit w (drop_bit (j * w) X)) = 2 ^ (w - 1) + al j"
      using digit_or_flag [OF w w64, of "drop_bit (j * w) G"] by (simp add: al_def)
    then show ?thesis by (simp only: unat_digit)
  qed
  have dV: "(unat V div 2 ^ (j * w)) mod 2 ^ w = vl" if "j < n" for j
    using digit_field_mask_times [OF w, of j x] that
    by (simp only: unat_digit [symmetric] V_def n_def vl_def)
  have vlt: "vl < 2 ^ (w - 1)"
    by (simp add: vl_def lowbits_def unsigned_take_bit_eq)
  have le: "\<forall>j<n. (unat V div 2 ^ (j * w)) mod 2 ^ w \<le> (unat X div 2 ^ (j * w)) mod 2 ^ w"
    using dX dV vlt by simp
  have bound: "unat V < 2 ^ (n * w)"
    using field_mask_times_bound [OF w, of x] by (simp add: V_def n_def)
  have VX: "unat V \<le> unat X" and
    dg: "\<forall>j<n. ((unat X - unat V) div 2 ^ (j * w)) mod 2 ^ w =
           (unat X div 2 ^ (j * w)) mod 2 ^ w - (unat V div 2 ^ (j * w)) mod 2 ^ w"
    using swar_sub_nat [OF le bound] by simp_all
  have sub: "unat (X - V) = unat X - unat V"
    using VX by (simp add: unat_sub word_le_nat_alt)
  have kn: "k < n" using k by (simp add: n_def)
  have "bit (X - V) (k * w + (w - 1)) = bit (unat (X - V)) (k * w + (w - 1))"
    by (simp add: bit_unsigned_iff)
  also have "\<dots> = (2 ^ (w - 1) \<le> ((unat X - unat V) div 2 ^ (k * w)) mod 2 ^ w)"
    using bit_top_of_digit [OF w, of "unat X - unat V" "k * w"] by (simp only: sub)
  also have "\<dots> = (2 ^ (w - 1) \<le> 2 ^ (w - 1) + al k - vl)"
    using dg kn dX dV by simp
  also have "\<dots> = (vl \<le> al k)"
    using vlt by auto
  finally show ?thesis
    by (simp add: X_def V_def field_mask_def fm vl_def al_def)
qed

lemma popcount_card: "popcount y = card {j. j < 64 \<and> bit y j}"
proof -
  have "popcount y = card (set (filter (bit y) [0..<64]))"
    unfolding popcount_def by (rule distinct_card [symmetric]) simp
  also have "set (filter (bit y) [0..<64]) = {j. j < 64 \<and> bit y j}" by auto
  finally show ?thesis .
qed

lemma popcount_flags:
  assumes w: "0 < w" and pw: "pv_width v = w" and fm: "pv_field_mask v = compute_field_mask w"
    and st: "step \<le> W div w"
  shows "popcount (lowbits (flag_mask v AND D) (step * w)) =
         card {k. k < step \<and> bit D (k * w + (w - 1))}"
proof -
  let ?f = "\<lambda>k. k * w + (w - 1)"
  have le64: "(W div w) * w \<le> 64" by (simp add: W_def)
  have sw: "step * w \<le> (W div w) * w" using st by (rule mult_le_mono1)
  have bf: "bit (flag_mask v) j \<longleftrightarrow> j < 64 \<and> w - 1 \<le> j \<and> j - (w - 1) < (W div w) * w \<and>
       (j - (w - 1)) mod w = 0" for j
    using w by (auto simp: flag_mask_def pw fm bit_push_bit_iff bit_compute_field_mask)
  have "{j. j < 64 \<and> bit (lowbits (flag_mask v AND D) (step * w)) j} =
        ?f ` {k. k < step \<and> bit D (k * w + (w - 1))}"
  proof (intro set_eqI iffI)
    fix j
    assume "j \<in> {j. j < 64 \<and> bit (lowbits (flag_mask v AND D) (step * w)) j}"
    then have j: "j < step * w" "w - 1 \<le> j" "(j - (w - 1)) mod w = 0" "bit D j"
      by (auto simp: lowbits_def bit_take_bit_iff bit_and_iff bf)
    define k where "k = (j - (w - 1)) div w"
    have jk: "j = k * w + (w - 1)"
      using j(2,3) by (simp add: k_def) (metis add.commute le_add_diff_inverse mod_0_imp_dvd dvd_div_mult_self)
    have "k < step"
    proof (rule ccontr)
      assume "\<not> k < step"
      then have "step * w \<le> k * w" by (intro mult_le_mono1) simp
      then show False using j(1) jk by linarith
    qed
    then show "j \<in> ?f ` {k. k < step \<and> bit D (k * w + (w - 1))}"
      using jk j(4) by auto
  next
    fix j
    assume "j \<in> ?f ` {k. k < step \<and> bit D (k * w + (w - 1))}"
    then obtain k where k: "j = k * w + (w - 1)" "k < step" "bit D (k * w + (w - 1))" by auto
    have "k * w + w \<le> step * w"
      using k(2) by (metis Suc_leI mult_Suc mult_le_mono1 add.commute)
    then have "j < step * w" using w k(1) by simp
    moreover have "j < 64" using \<open>j < step * w\<close> sw le64 by linarith
    moreover have "j - (w - 1) < (W div w) * w" using \<open>j < step * w\<close> sw by linarith
    ultimately show "j \<in> {j. j < 64 \<and> bit (lowbits (flag_mask v AND D) (step * w)) j}"
      using k by (auto simp: lowbits_def bit_take_bit_iff bit_and_iff bf)
  qed
  moreover have "inj_on ?f {k. k < step \<and> bit D (k * w + (w - 1))}"
  proof (rule inj_onI)
    fix a b
    assume "a * w + (w - 1) = b * w + (w - 1)"
    then have "a * w = b * w" by (rule add_right_imp_eq)
    then show "a = b" using w by simp
  qed
  ultimately show ?thesis
    by (simp add: popcount_card card_image)
qed



lemma digit_pv_get:
  assumes "k < step" "step * w \<le> 64" "pv_width v = w"
  shows "take_bit (w - 1) (drop_bit (k * w) (pv_get v p (p + step))) =
         lowbits (pv_get v (p + k) (p + k + 1)) (w - 1)"
proof (rule bit_word_eqI)
  fix j :: nat
  assume "j < LENGTH(64)"
  have kw: "k * w + w \<le> step * w"
    using assms(1) by (metis Suc_leI mult_Suc mult_le_mono1 add.commute)
  show "bit (take_bit (w - 1) (drop_bit (k * w) (pv_get v p (p + step)))) j =
        bit (lowbits (pv_get v (p + k) (p + k + 1)) (w - 1)) j"
  proof (cases "j < w - 1")
    case False
    then show ?thesis by (simp add: bit_take_bit_iff lowbits_def)
  next
    case True
    then have a: "k * w + j < step * w" "k * w + j < 64" "j < w" "j < 64"
      using kw assms(2) by linarith+
    have i1: "(p + step) * w - p * w = step * w" by (simp add: algebra_simps)
    have i2: "(p + k + 1) * w - (p + k) * w = w" by (simp add: algebra_simps)
    have i3: "p * w + (k * w + j) = (p + k) * w + j" by (simp add: algebra_simps)
    have "bit (take_bit (w - 1) (drop_bit (k * w) (pv_get v p (p + step)))) j =
          bit (bv_get (pv_bits v) (p * w) ((p + step) * w)) (k * w + j)"
      using True by (simp add: bit_take_bit_iff bit_drop_bit_eq pv_get_def assms(3))
    also have "\<dots> = ((p + k) * w + j < length (pv_bits v) \<and> pv_bits v ! ((p + k) * w + j))"
      unfolding bit_bv_get i1 i3 using a by simp
    also have "\<dots> = bit (bv_get (pv_bits v) ((p + k) * w) ((p + k + 1) * w)) j"
      unfolding bit_bv_get i2 using a by simp
    also have "\<dots> = bit (lowbits (pv_get v (p + k) (p + k + 1)) (w - 1)) j"
      using True by (simp add: bit_take_bit_iff lowbits_def pv_get_def assms(3))
    finally show ?thesis .
  qed
qed


lemma chunk_count:
  assumes w: "0 < w" and pw: "pv_width v = w" and fm: "pv_field_mask v = compute_field_mask w"
    and st: "step \<le> W div w"
  shows "popcount (lowbits (flag_mask v AND
            ((pv_get v p (p + step) OR flag_mask v) - field_mask v * lowbits x (w - 1)))
            (step * w)) =
         card {i. p \<le> i \<and> i < p + step \<and>
                  unat (lowbits x (w - 1)) \<le> unat (lowbits (pv_get v i (i + 1)) (w - 1))}"
proof -
  define D where "D = (pv_get v p (p + step) OR flag_mask v) - field_mask v * lowbits x (w - 1)"
  define vl where "vl = unat (lowbits x (w - 1))"
  define al where "al i = unat (lowbits (pv_get v i (i + 1)) (w - 1))" for i
  have sw: "step * w \<le> 64"
  proof -
    have "step * w \<le> (W div w) * w" using st by (rule mult_le_mono1)
    also have "\<dots> \<le> 64" by (simp add: W_def)
    finally show ?thesis .
  qed
  have fb: "bit D (k * w + (w - 1)) \<longleftrightarrow> vl \<le> al (p + k)" if "k < step" for k
  proof -
    have kW: "k < W div w" using that st by simp
    have "bit D (k * w + (w - 1)) \<longleftrightarrow>
          vl \<le> unat (take_bit (w - 1) (drop_bit (k * w) (pv_get v p (p + step))))"
      unfolding D_def vl_def by (rule swar_flag_bit [OF w kW pw fm])
    also have "take_bit (w - 1) (drop_bit (k * w) (pv_get v p (p + step))) =
        lowbits (pv_get v (p + k) (p + k + 1)) (w - 1)"
      by (rule digit_pv_get [OF that sw pw])
    finally show ?thesis unfolding al_def .
  qed
  have s1: "{k. k < step \<and> bit D (k * w + (w - 1))} = {k. k < step \<and> vl \<le> al (p + k)}"
    using fb by blast
  have s2: "(\<lambda>k. p + k) ` {k. k < step \<and> vl \<le> al (p + k)} =
      {i. p \<le> i \<and> i < p + step \<and> vl \<le> al i}"
  proof (intro set_eqI iffI)
    fix i assume "i \<in> {i. p \<le> i \<and> i < p + step \<and> vl \<le> al i}"
    then have "i - p < step" "vl \<le> al (p + (i - p))" "i = p + (i - p)" by auto
    then show "i \<in> (\<lambda>k. p + k) ` {k. k < step \<and> vl \<le> al (p + k)}" by blast
  next
    fix i assume "i \<in> (\<lambda>k. p + k) ` {k. k < step \<and> vl \<le> al (p + k)}"
    then show "i \<in> {i. p \<le> i \<and> i < p + step \<and> vl \<le> al i}" by auto
  qed
  have s3: "inj_on (\<lambda>k. p + k) {k. k < step \<and> vl \<le> al (p + k)}"
    by (rule inj_onI) simp
  have "card {k. k < step \<and> bit D (k * w + (w - 1))} =
      card {i. p \<le> i \<and> i < p + step \<and> vl \<le> al i}"
    unfolding s1 s2 [symmetric] by (rule card_image [OF s3, symmetric])
  then have "popcount (lowbits (flag_mask v AND D) (step * w)) =
      card {i. p \<le> i \<and> i < p + step \<and> vl \<le> al i}"
    using popcount_flags [OF w pw fm st, of D] by (simp only:)
  then show ?thesis unfolding D_def vl_def al_def .
qed


lemma find_loop_correct:
  assumes w: "0 < w" and pw: "pv_width v = w" and fm: "pv_field_mask v = compute_field_mask w"
    and fpw: "0 < W div w"
    and pe: "p \<le> e" and len: "len = e - p" and rm: "len mod (W div w) = rem"
    and res: "e - p \<le> result" "result < 2 ^ 64"
  shows "find_loop v (W div w) rem e (field_mask v * lowbits x (w - 1)) len p result =
         Some (result - card {i. p \<le> i \<and> i < e \<and>
                  unat (lowbits x (w - 1)) \<le> unat (lowbits (pv_get v i (i + 1)) (w - 1))})"
  using pe len rm res
proof (induction len arbitrary: p result rule: less_induct)
  case (less len)
  let ?P = "\<lambda>i. unat (lowbits x (w - 1)) \<le> unat (lowbits (pv_get v i (i + 1)) (w - 1))"
  let ?val = "field_mask v * lowbits x (w - 1)"
  show ?case
  proof (cases "p < e")
    case False
    then have "{i. p \<le> i \<and> i < e \<and> ?P i} = {}" by auto
    then have c0: "card {i. p \<le> i \<and> i < e \<and> ?P i} = 0" by (simp only: card.empty)
    have fl: "find_loop v (W div w) rem e ?val len p result = Some result"
      using False by (subst find_loop.simps) simp
    show ?thesis unfolding fl c0 by simp
  next
    case True
    define step where "step = (if len < W div w then rem else W div w)"
    have st_le: "step \<le> W div w"
      using less.prems(2,3) by (cases "len < W div w") (simp_all add: step_def)
    have st_len: "step \<le> len"
      using less.prems(2,3) by (cases "len < W div w") (simp_all add: step_def)
    have st_pos: "0 < step"
      using less.prems(2,3) True fpw by (cases "len < W div w") (simp_all add: step_def)
    define cnt where "cnt = card {i. p \<le> i \<and> i < p + step \<and> ?P i}"
    have cnt_le: "cnt \<le> step"
    proof -
      have "{i. p \<le> i \<and> i < p + step \<and> ?P i} \<subseteq> {p..<p + step}" by auto
      then have "cnt \<le> card {p..<p + step}" unfolding cnt_def by (intro card_mono) simp_all
      then show ?thesis by simp
    qed
    have cr: "cnt \<le> result" using cnt_le st_len less.prems(2,4) by linarith
    have r': "(result + 2 ^ 64 - cnt) mod 2 ^ 64 = result - cnt"
    proof -
      have e1: "result + 2 ^ 64 - cnt = (result - cnt) + 2 ^ 64" using cr by simp
      have e2: "result - cnt < 2 ^ 64" using less.prems(5) by simp
      show ?thesis unfolding e1 using e2 by (simp only: mod_add_self2 mod_less)
    qed
    have pc: "popcount (lowbits (flag_mask v AND
            ((pv_get v p (p + step) OR flag_mask v) - ?val)) (step * w)) = cnt"
      unfolding cnt_def by (rule chunk_count [OF w pw fm st_le])
    have "find_loop v (W div w) rem e ?val len p result =
        find_loop v (W div w) rem e ?val (len - step) (p + step)
          ((result + 2 ^ 64 - popcount (lowbits (flag_mask v AND
            ((pv_get v p (p + step) OR flag_mask v) - ?val)) (step * pv_width v))) mod 2 ^ 64)"
      using True by (subst find_loop.simps) (simp only: if_True Let_def step_def)
    then have unf: "find_loop v (W div w) rem e ?val len p result =
        find_loop v (W div w) rem e ?val (len - step) (p + step) (result - cnt)"
      by (simp only: pw pc r')
    have a2: "p + step \<le> e" using st_len less.prems(1,2) by simp
    have split: "{i. p \<le> i \<and> i < e \<and> ?P i} =
        {i. p \<le> i \<and> i < p + step \<and> ?P i} \<union> {i. p + step \<le> i \<and> i < e \<and> ?P i}"
      using a2 by auto
    have fin: "finite {i. p \<le> i \<and> i < p + step \<and> ?P i}"
      "finite {i. p + step \<le> i \<and> i < e \<and> ?P i}" by simp_all
    have cs: "card {i. p \<le> i \<and> i < e \<and> ?P i} =
        cnt + card {i. p + step \<le> i \<and> i < e \<and> ?P i}"
      unfolding split cnt_def by (rule card_Un_disjoint [OF fin]) auto
    have a5: "e - (p + step) \<le> result - cnt"
      using less.prems(2,4) cnt_le st_len by linarith
    have a6: "result - cnt < 2 ^ 64" using less.prems(5) by simp
    have rec: "find_loop v (W div w) rem e ?val (len - step) (p + step) (result - cnt) =
        Some (result - cnt - card {i. p + step \<le> i \<and> i < e \<and> ?P i})"
    proof (cases "len < W div w")
      case small: True
      then have "step = len" using less.prems(3) by (simp add: step_def)
      then have pe': "p + step = e" using less.prems(1,2) by simp
      have "{i. p + step \<le> i \<and> i < e \<and> ?P i} = {}" using pe' by auto
      then have c0: "card {i. p + step \<le> i \<and> i < e \<and> ?P i} = 0"
        by (simp only: card.empty)
      have "find_loop v (W div w) rem e ?val (len - step) (p + step) (result - cnt) =
          Some (result - cnt)"
        using pe' by (subst find_loop.simps) simp
      then show ?thesis unfolding c0 by simp
    next
      case big: False
      then have stF: "step = W div w" by (simp add: step_def)
      have a1: "len - step < len" using st_pos st_len by simp
      have a3: "len - step = e - (p + step)" using less.prems(2) by simp
      have "len mod (W div w) = (len - W div w) mod (W div w)"
        using big by (intro le_mod_geq) simp
      then have a4: "(len - step) mod (W div w) = rem"
        using less.prems(3) by (simp only: stF)
      show ?thesis by (rule less.IH [OF a1 a2 a3 a4 a5 a6])
    qed
    show ?thesis unfolding unf rec cs by simp
  qed
qed


text \<open>
  Claim C4, as amended. For a packed view of field width \<open>w\<close> (\<open>1 \<le> w < W\<close>) and a field
  range \<open>[b, e)\<close> within its size, \<open>find(b, e, x)\<close> returns the number of fields of the
  range whose low \<open>w - 1\<close> bits are strictly less than \<open>lowbits(x, w - 1)\<close>: the flag bit of
  a field and bit \<open>w - 1\<close> of the threshold take no part in the comparison.
\<close>

theorem find_counts_below:
  assumes w: "0 < pv_width v" "pv_width v < W"
    and fm: "pv_field_mask v = compute_field_mask (pv_width v)"
    and be: "b \<le> e" and es: "e \<le> pv_size v" and e64: "e < 2 ^ 64"
  shows "pv_find v b e x =
         Some (card {i. b \<le> i \<and> i < e \<and>
                 lowbits (pv_get v i (i + 1)) (pv_width v - 1) < lowbits x (pv_width v - 1)})"
proof -
  define w where "w = pv_width v"
  let ?P = "\<lambda>i. unat (lowbits x (w - 1)) \<le> unat (lowbits (pv_get v i (i + 1)) (w - 1))"
  have w0: "0 < w" and pw: "pv_width v = w" using w by (simp_all add: w_def)
  have fpw: "0 < W div w" using w by (simp add: w_def W_def div_greater_zero_iff)
  have fm': "pv_field_mask v = compute_field_mask w" using fm by (simp add: w_def)
  have r1: "e - b \<le> e - b" by simp
  have r2: "e - b < 2 ^ 64" using e64 by simp
  have fl: "find_loop v (W div w) ((e - b) mod (W div w)) e (field_mask v * lowbits x (w - 1))
          (e - b) b (e - b) = Some (e - b - card {i. b \<le> i \<and> i < e \<and> ?P i})"
    by (rule find_loop_correct [OF w0 pw fm' fpw be refl refl r1 r2])
  have sp: "{i. b \<le> i \<and> i < e \<and> ?P i} \<union> {i. b \<le> i \<and> i < e \<and> \<not> ?P i} = {b..<e}"
    by auto
  have fin: "finite {i. b \<le> i \<and> i < e \<and> ?P i}" "finite {i. b \<le> i \<and> i < e \<and> \<not> ?P i}"
    by simp_all
  have "card {i. b \<le> i \<and> i < e \<and> ?P i} + card {i. b \<le> i \<and> i < e \<and> \<not> ?P i} =
        card {b..<e}"
    unfolding sp [symmetric] by (rule card_Un_disjoint [OF fin, symmetric]) auto
  then have c: "e - b - card {i. b \<le> i \<and> i < e \<and> ?P i} =
      card {i. b \<le> i \<and> i < e \<and> \<not> ?P i}"
    by (simp only: card_atLeastLessThan) linarith
  have "pv_find v b e x = Some (card {i. b \<le> i \<and> i < e \<and> \<not> ?P i})"
    using fl unfolding c by (simp add: pv_find_def Let_def pw)
  then show ?thesis
    by (simp add: pw word_less_nat_alt not_le)
qed

theorem find_counts_below_witness:
  "pv_find (pv_set (new_packed_view 3 4) 1 2 5) 0 4 6 =
   Some (card {i. 0 \<le> i \<and> i < 4 \<and>
     lowbits (pv_get (pv_set (new_packed_view 3 4) 1 2 5) i (i + 1)) (3 - 1) < lowbits 6 (3 - 1)})"
proof -
  have a: "0 < pv_width (pv_set (new_packed_view 3 4) 1 2 5)"
    "pv_width (pv_set (new_packed_view 3 4) 1 2 5) < W"
    "pv_field_mask (pv_set (new_packed_view 3 4) 1 2 5) =
       compute_field_mask (pv_width (pv_set (new_packed_view 3 4) 1 2 5))"
    "(0::nat) \<le> 4" "4 \<le> pv_size (pv_set (new_packed_view 3 4) 1 2 5)" "(4::nat) < 2 ^ 64"
    by (simp_all add: pv_set_def new_packed_view_def W_def pv_size_def)
  have pw: "pv_width (pv_set (new_packed_view 3 4) 1 2 5) = 3"
    by (simp add: pv_set_def new_packed_view_def)
  show ?thesis
    using find_counts_below [OF a, of 6] unfolding pw .
qed



lemma field_mask_loop_unroll:
  "field_mask_loop n w m = (if n = 0 then m else field_mask_loop (n - 1) w (push_bit w m OR 1))"
  by (cases n) simp_all

lemma cfm: "compute_field_mask 2 = 0x5555555555555555"
  by (simp add: compute_field_mask_def W_def field_mask_loop_unroll)

lemma replicate_unroll: "replicate n x = (if n = 0 then [] else x # replicate (n - 1) x)"
  by (cases n) simp_all

text \<open>
  The claim as stated compares whole fields with \<open>lowbits(x, w)\<close>. In the view of one field
  of width 2 holding 0, the field is below \<open>lowbits(2, 2) = 2\<close>, so the count the claim
  gives for \<open>find(0, 1, 2)\<close> is 1; \<open>find\<close> returns 0.
\<close>

theorem find_counterexample:
  "pv_find (new_packed_view 2 1) 0 1 2 = Some 0 \<and>
   length (filter (\<lambda>i. pv_get (new_packed_view 2 1) i (i + 1) < lowbits 2 2) [0..<1]) = 1"
  by (simp add: pv_find_def find_loop.simps new_packed_view_def W_def Let_def
      field_mask_def flag_mask_def cfm lowbits_def pv_get_def bv_get_def popcount_def
      upt_conv_Cons bit_numeral_simps replicate_unroll)

end
